theory Spec2Isabelle
  imports Main "HOL-Library.Word" "HOL-Library.Signed_Division"
begin

unbundle bit_operations_syntax

section \<open>The checksum (crc\_std.go and the Nox variant)\<close>

type_synonym byte = "8 word"

type_synonym uint32 = "32 word"

text \<open>
  \<open>crc32.IEEE\<close> is the reflected CRC-32 polynomial of Go's \<open>hash/crc32\<close>; a
  \<open>crc32.Table\<close> is an array of 256 \<open>uint32\<close>.
\<close>

definition IEEE :: uint32 where
  "IEEE = 0xedb88320"

text \<open>One turn of the inner loop of \<open>simplePopulateTable\<close> (\<open>j\<close> from 0 to 7).\<close>

definition populate_bit :: "uint32 \<Rightarrow> uint32 \<Rightarrow> uint32" where
  "populate_bit poly crc =
     (if crc AND 1 = 1 then drop_bit 1 crc XOR poly else drop_bit 1 crc)"

text \<open>The body of the outer loop: the entry \<open>t[i]\<close>.\<close>

definition populate_entry :: "uint32 \<Rightarrow> nat \<Rightarrow> uint32" where
  "populate_entry poly i = (populate_bit poly ^^ 8) (of_nat i)"

definition simplePopulateTable :: "uint32 \<Rightarrow> uint32 list" where
  "simplePopulateTable poly = map (populate_entry poly) [0..<256]"

definition simpleMakeTable :: "uint32 \<Rightarrow> uint32 list" where
  "simpleMakeTable poly = simplePopulateTable poly"

definition crcTable :: "uint32 list" where
  "crcTable = simpleMakeTable IEEE"

definition ZeroCRC :: uint32 where
  "ZeroCRC = 0xFFFFFFFF"

definition ZeroCRCStd :: uint32 where
  "ZeroCRCStd = 0"

text \<open>
  The loop body shared by both update functions:
  \<open>crc = tab[byte(crc)^v] ^ (crc >> 8)\<close>. The index is a byte, so it is below 256.
\<close>

definition crc_byte :: "uint32 list \<Rightarrow> byte \<Rightarrow> uint32 \<Rightarrow> uint32" where
  "crc_byte tab v crc = tab ! unat ((ucast crc :: byte) XOR v) XOR drop_bit 8 crc"

definition simpleUpdate :: "uint32 \<Rightarrow> uint32 list \<Rightarrow> byte list \<Rightarrow> uint32" where
  "simpleUpdate crc tab p = NOT (fold (crc_byte tab) p (NOT crc))"

text \<open>\<open>UpdateCRC\<close> omits the first inversion and keeps the last one.\<close>

definition UpdateCRC :: "uint32 \<Rightarrow> byte list \<Rightarrow> uint32" where
  "UpdateCRC crc p = NOT (fold (crc_byte crcTable) p crc)"

definition UpdateCRCStd :: "uint32 \<Rightarrow> byte list \<Rightarrow> uint32" where
  "UpdateCRCStd crc p = simpleUpdate crc crcTable p"

section \<open>Blocks, the cipher and Go's \<open>copy\<close>\<close>

text \<open>
  Modelled from the spec: the constant \<open>Block\<close> is declared in a file of the package
  that is not among these sources; the spec gives the block size as 8 bytes, the native
  block width of the cipher. A \<open>[Block]byte\<close> array always holds exactly \<open>Block\<close>
  bytes, so it is a type of its own.
\<close>

definition Block :: nat where
  "Block = 8"

typedef block = "{xs :: byte list. length xs = Block}"
  morphisms bytes Abs_block
  by (rule exI [of _ "replicate Block 0"]) simp

setup_lifting type_definition_block

lemma length_bytes [simp]: "length (bytes b) = Block"
  using bytes [of b] by simp

lemma bytes_neq_Nil [simp]: "bytes b \<noteq> []"
proof
  assume "bytes b = []"
  then have "length (bytes b) = 0" by simp
  then show False by (simp add: Block_def)
qed

text \<open>\<open>var empty [Block]byte\<close>: the zero value of the array.\<close>

lift_definition empty :: block is "replicate Block 0"
  by simp

text \<open>
  Go's builtin \<open>copy(dst, src)\<close> overwrites the first \<open>min(len(dst), len(src))\<close> bytes
  of \<open>dst\<close> and returns that count.
\<close>

definition copy :: "byte list \<Rightarrow> byte list \<Rightarrow> byte list \<times> nat" where
  "copy dst src =
     (take (length dst) src @ drop (length src) dst, min (length dst) (length src))"

text \<open>
  \<open>copy(b[at:], src)\<close> on an array \<open>b\<close>, for \<open>at \<le> Block\<close> (a larger \<open>at\<close> panics
  in Go; the callers below check it first).
\<close>

lift_definition store_at :: "block \<Rightarrow> nat \<Rightarrow> byte list \<Rightarrow> block" is
  "\<lambda>b at src. take at b @ fst (copy (drop at b) src)"
  by (simp add: copy_def)

text \<open>An array literal, zero-padded: used to write down concrete blocks.\<close>

definition block_of :: "byte list \<Rightarrow> block" where
  "block_of xs = store_at empty 0 xs"

text \<open>
  The cipher is \<open>*blowfish.Cipher\<close> of golang.org/x/crypto: \<open>Encrypt(dst, src)\<close> and
  \<open>Decrypt(dst, src)\<close> map one 8-byte block to one 8-byte block. \<open>NewCipher\<close>, which
  builds it from an integer key, is a parameter of the constructors below.
\<close>

record Cipher =
  Encrypt :: "block \<Rightarrow> block"
  Decrypt :: "block \<Rightarrow> block"

datatype error =
    ErrorString string   \<comment> \<open>\<open>errors.New(msg)\<close>\<close>
  | EOF                  \<comment> \<open>\<open>io.EOF\<close>\<close>
  | ErrUnexpectedEOF     \<comment> \<open>\<open>io.ErrUnexpectedEOF\<close>\<close>
  | PanicSliceBounds     \<comment> \<open>the run-time panic of a slice expression out of range\<close>

section \<open>The sink\<close>

text \<open>
  An \<open>io.Writer\<close> value is an object together with its \<open>Write\<close> method; the object may
  also implement \<open>io.WriterAt\<close>. The byte count that \<open>Write\<close> and \<open>WriteAt\<close> return is
  discarded by every caller in this package, so the methods return the error only.
\<close>

record 's io_Writer =
  wr_obj :: 's
  wr_Write :: "'s \<Rightarrow> byte list \<Rightarrow> error option \<times> 's"
  wr_WriteAt :: "('s \<Rightarrow> byte list \<Rightarrow> 64 word \<Rightarrow> error option \<times> 's) option"

section \<open>The Writer with checksum and patching\<close>

text \<open>
  \<open>w.w\<close> and \<open>w.at\<close> are two views of one object: the object lives in \<open>w_w\<close> and
  \<open>w_at\<close> holds the \<open>WriteAt\<close> method when there is one. \<open>w.n\<close> is a Go \<open>int\<close> that is
  only ever set to 0 or increased by a copy count; \<open>w.off\<close> is an \<open>int64\<close>.
\<close>

record 's Writer =
  w_w :: "'s io_Writer"
  w_at :: "('s \<Rightarrow> byte list \<Rightarrow> 64 word \<Rightarrow> error option \<times> 's) option"
  w_c :: Cipher
  w_buf :: block
  w_n :: nat
  w_off :: "64 word"
  w_crc :: uint32
  w_NoZero :: bool

definition ResetCRC :: "'s Writer \<Rightarrow> 's Writer" where
  "ResetCRC w = w\<lparr>w_crc := ZeroCRC\<rparr>"

definition Reset :: "'s Writer \<Rightarrow> 's io_Writer \<Rightarrow> 's Writer" where
  "Reset w d = ResetCRC (w\<lparr>w_w := d, w_at := wr_WriteAt d, w_n := 0, w_off := 0\<rparr>)"

text \<open>
  \<open>NewWriter\<close> builds \<open>&Writer{c: c}\<close> and calls \<open>Reset(w)\<close> on it (\<open>fresh_Writer\<close>): every
  other field starts at its zero value. \<open>NewCipher\<close> is not part of these files and is a
  parameter.
\<close>

definition fresh_Writer :: "Cipher \<Rightarrow> 's io_Writer \<Rightarrow> 's Writer" where
  "fresh_Writer c w =
     Reset \<lparr>w_w = w, w_at = None, w_c = c, w_buf = empty, w_n = 0, w_off = 0,
            w_crc = 0, w_NoZero = False\<rparr> w"

definition NewWriter ::
  "(int \<Rightarrow> error + Cipher) \<Rightarrow> 's io_Writer \<Rightarrow> int \<Rightarrow> error + 's Writer" where
  "NewWriter NewCipher w key =
     (case NewCipher key of
        Inl err \<Rightarrow> Inl err
      | Inr c \<Rightarrow> Inr (fresh_Writer c w))"

definition CRC :: "'s Writer \<Rightarrow> uint32" where
  "CRC w = w_crc w"

definition Written :: "'s Writer \<Rightarrow> 64 word" where
  "Written w = w_off w"

text \<open>\<open>w.w.Write(p)\<close> on the sink object.\<close>

definition sink_write :: "'s io_Writer \<Rightarrow> byte list \<Rightarrow> error option \<times> 's io_Writer" where
  "sink_write d p = (case wr_Write d (wr_obj d) p of (err, obj) \<Rightarrow> (err, d\<lparr>wr_obj := obj\<rparr>))"

definition flush :: "'s Writer \<Rightarrow> error option \<times> 's Writer" where
  "flush w =
     (let crc = UpdateCRC (w_crc w) (bytes (w_buf w));
          dst = Encrypt (w_c w) (w_buf w);
          (err, d) = sink_write (w_w w) (bytes dst)
      in (err, w\<lparr>w_crc := crc, w_w := d,
                  w_off := w_off w + of_int (int Block - int (w_n w)), w_n := 0\<rparr>))"

definition Flush :: "'s Writer \<Rightarrow> error option \<times> 's Writer" where
  "Flush w =
     (if w_n w = 0 then (None, w)
      else if \<not> w_NoZero w \<and> w_n w \<noteq> Block then
        (if Block < w_n w then (Some PanicSliceBounds, w)
         else flush (w\<lparr>w_buf := store_at (w_buf w) (w_n w) (bytes empty)\<rparr>))
      else flush w)"

definition Close :: "'s Writer \<Rightarrow> error option \<times> 's Writer" where
  "Close w = Flush w"

text \<open>
  The method \<open>write\<close> (here \<open>write_step\<close>, one turn of the loop of \<open>Write\<close>) returns the
  count and the error; the slice \<open>w.buf[w.n:]\<close> panics when
  \<open>w.n\<close> is beyond the array.
\<close>

definition write_step :: "'s Writer \<Rightarrow> byte list \<Rightarrow> (nat \<times> error option) \<times> 's Writer" where
  "write_step w p =
     (if Block < w_n w then ((0, Some PanicSliceBounds), w)
      else
        let n = snd (copy (drop (w_n w) (bytes (w_buf w))) p);
            w1 = w\<lparr>w_buf := store_at (w_buf w) (w_n w) p, w_n := w_n w + n,
                   w_off := w_off w + of_nat n\<rparr>
        in if w_n w1 = Block then
             (case flush w1 of
                (Some err, w2) \<Rightarrow> ((0, Some err), w2)
              | (None, w2) \<Rightarrow>
                  ((n, None),
                   if w_NoZero w2 then w2\<lparr>w_buf := store_at (w_buf w2) 0 (bytes empty)\<rparr>
                   else w2))
           else ((n, None), w1))"

lemma write_progress:
  assumes "write_step w p = ((n, None), w')" and "p \<noteq> []"
  shows "0 < n \<or> (w_n w = Block \<and> w_n w' \<noteq> Block)"
  using assms
  by (auto simp: write_step_def Let_def flush_def copy_def Block_def
           split: if_splits prod.splits option.splits)

text \<open>
  The loop of \<open>Write\<close>: \<open>total\<close> is the sum of the counts of the steps, the last one
  included when it fails.
\<close>

function Write :: "'s Writer \<Rightarrow> byte list \<Rightarrow> (nat \<times> error option) \<times> 's Writer" where
  "Write w p =
     (if p = [] then ((0, None), w)
      else
        case write_step w p of
          ((n, Some err), w1) \<Rightarrow> ((n, Some err), w1)
        | ((n, None), w1) \<Rightarrow>
            (case Write w1 (drop n p) of ((m, err), w2) \<Rightarrow> ((n + m, err), w2)))"
  by pat_completeness auto
termination
proof (relation "measures [\<lambda>(w, p). length p, \<lambda>(w, p). if w_n w = Block then 1 else 0]",
       goal_cases)
  case 1
  show ?case by simp
next
  case (2 w p x1 w1 n e)
  then have "write_step w p = ((n, None), w1)" by simp
  from write_progress [OF this \<open>p \<noteq> []\<close>] \<open>p \<noteq> []\<close> show ?case
    by auto
qed

declare Write.simps [simp del]

text \<open>
  \<open>binary.LittleEndian.PutUint16/32/64\<close>: byte \<open>k\<close> of the result is \<open>byte(v >> (8*k))\<close>.
  The signed variants convert with \<open>uint8(v)\<close>, \<open>uint16(v)\<close>, ..., which keeps the bits:
  a signed integer is the same word read with \<open>sint\<close>.
\<close>

definition le_bytes :: "nat \<Rightarrow> 'a::len word \<Rightarrow> byte list" where
  "le_bytes k v = map (\<lambda>j. ucast (drop_bit (8 * j) v)) [0..<k]"

definition PutUint16 :: "16 word \<Rightarrow> byte list" where
  "PutUint16 v = le_bytes 2 v"

definition PutUint32 :: "32 word \<Rightarrow> byte list" where
  "PutUint32 v = le_bytes 4 v"

definition PutUint64 :: "64 word \<Rightarrow> byte list" where
  "PutUint64 v = le_bytes 8 v"

text \<open>\<open>_, err := w.Write(b); return err\<close>.\<close>

definition write_err :: "'s Writer \<Rightarrow> byte list \<Rightarrow> error option \<times> 's Writer" where
  "write_err w b = (case Write w b of ((n, err), w1) \<Rightarrow> (err, w1))"

definition WriteU8 :: "'s Writer \<Rightarrow> byte \<Rightarrow> error option \<times> 's Writer" where
  "WriteU8 w v = write_err w [v]"

definition WriteU16 :: "'s Writer \<Rightarrow> 16 word \<Rightarrow> error option \<times> 's Writer" where
  "WriteU16 w v = write_err w (PutUint16 v)"

definition WriteU32 :: "'s Writer \<Rightarrow> 32 word \<Rightarrow> error option \<times> 's Writer" where
  "WriteU32 w v = write_err w (PutUint32 v)"

definition WriteU64 :: "'s Writer \<Rightarrow> 64 word \<Rightarrow> error option \<times> 's Writer" where
  "WriteU64 w v = write_err w (PutUint64 v)"

definition WriteI8 :: "'s Writer \<Rightarrow> byte \<Rightarrow> error option \<times> 's Writer" where
  "WriteI8 w v = WriteU8 w v"

definition WriteI16 :: "'s Writer \<Rightarrow> 16 word \<Rightarrow> error option \<times> 's Writer" where
  "WriteI16 w v = WriteU16 w v"

definition WriteI32 :: "'s Writer \<Rightarrow> 32 word \<Rightarrow> error option \<times> 's Writer" where
  "WriteI32 w v = WriteU32 w v"

definition WriteI64 :: "'s Writer \<Rightarrow> 64 word \<Rightarrow> error option \<times> 's Writer" where
  "WriteI64 w v = WriteU64 w v"

definition WriteEmpty :: "'s Writer \<Rightarrow> (64 word \<times> error option) \<times> 's Writer" where
  "WriteEmpty w =
     (case Flush w of
        (Some err, w1) \<Rightarrow> ((0, Some err), w1)
      | (None, w1) \<Rightarrow>
          (let crc = UpdateCRC (w_crc w1) (bytes empty);
               (err, d) = sink_write (w_w w1) (bytes empty);
               off = w_off w1
           in ((off, err), w1\<lparr>w_crc := crc, w_w := d, w_off := w_off w1 + of_nat Block\<rparr>)))"

definition WriteBlockAt :: "'s Writer \<Rightarrow> block \<Rightarrow> 64 word \<Rightarrow> error option \<times> 's Writer" where
  "WriteBlockAt w buf off =
     (case w_at w of
        None \<Rightarrow> (Some (ErrorString ''WriteAt is not supported by the underlying writer''), w)
      | Some WriteAt \<Rightarrow>
          (let dst = Encrypt (w_c w) buf;
               (err, obj) = WriteAt (wr_obj (w_w w)) (bytes dst) off
           in (err, w\<lparr>w_w := (w_w w)\<lparr>wr_obj := obj\<rparr>\<rparr>)))"

definition WriteU64At :: "'s Writer \<Rightarrow> 64 word \<Rightarrow> 64 word \<Rightarrow> error option \<times> 's Writer" where
  "WriteU64At w v off = WriteBlockAt w (store_at empty 0 (PutUint64 v)) off"

definition WriteU32At :: "'s Writer \<Rightarrow> 32 word \<Rightarrow> 64 word \<Rightarrow> error option \<times> 's Writer" where
  "WriteU32At w v off = WriteBlockAt w (store_at empty 0 (PutUint32 v)) off"

definition WriteI64At :: "'s Writer \<Rightarrow> 64 word \<Rightarrow> 64 word \<Rightarrow> error option \<times> 's Writer" where
  "WriteI64At w v off = WriteU64At w v off"

definition WriteI32At :: "'s Writer \<Rightarrow> 32 word \<Rightarrow> 64 word \<Rightarrow> error option \<times> 's Writer" where
  "WriteI32At w v off = WriteU32At w v off"

section \<open>The Writer without checksum and patching\<close>

text \<open>
  The second \<open>Writer\<close> of the source has no \<open>at\<close> and no \<open>crc\<close> field; its methods carry
  the suffix \<open>_old\<close> here.
\<close>

record 's Writer_old =
  o_w :: "'s io_Writer"
  o_c :: Cipher
  o_buf :: block
  o_n :: nat
  o_off :: "64 word"
  o_NoZero :: bool

definition Reset_old :: "'s Writer_old \<Rightarrow> 's io_Writer \<Rightarrow> 's Writer_old" where
  "Reset_old w d = w\<lparr>o_w := d, o_n := 0, o_off := 0\<rparr>"

definition fresh_Writer_old :: "Cipher \<Rightarrow> 's io_Writer \<Rightarrow> 's Writer_old" where
  "fresh_Writer_old c w =
     Reset_old \<lparr>o_w = w, o_c = c, o_buf = empty, o_n = 0, o_off = 0, o_NoZero = False\<rparr> w"

definition NewWriter_old ::
  "(int \<Rightarrow> error + Cipher) \<Rightarrow> 's io_Writer \<Rightarrow> int \<Rightarrow> error + 's Writer_old" where
  "NewWriter_old NewCipher w key =
     (case NewCipher key of
        Inl err \<Rightarrow> Inl err
      | Inr c \<Rightarrow> Inr (fresh_Writer_old c w))"

definition Written_old :: "'s Writer_old \<Rightarrow> 64 word" where
  "Written_old w = o_off w"

definition flush_old :: "'s Writer_old \<Rightarrow> error option \<times> 's Writer_old" where
  "flush_old w =
     (let dst = Encrypt (o_c w) (o_buf w);
          (err, d) = sink_write (o_w w) (bytes dst)
      in (err, w\<lparr>o_w := d, o_off := o_off w + of_int (int Block - int (o_n w)), o_n := 0\<rparr>))"

definition Flush_old :: "'s Writer_old \<Rightarrow> error option \<times> 's Writer_old" where
  "Flush_old w =
     (if o_n w = 0 then (None, w)
      else if \<not> o_NoZero w \<and> o_n w \<noteq> Block then
        (if Block < o_n w then (Some PanicSliceBounds, w)
         else flush_old (w\<lparr>o_buf := store_at (o_buf w) (o_n w) (bytes empty)\<rparr>))
      else flush_old w)"

definition Close_old :: "'s Writer_old \<Rightarrow> error option \<times> 's Writer_old" where
  "Close_old w = Flush_old w"

definition write_step_old ::
  "'s Writer_old \<Rightarrow> byte list \<Rightarrow> (nat \<times> error option) \<times> 's Writer_old" where
  "write_step_old w p =
     (if Block < o_n w then ((0, Some PanicSliceBounds), w)
      else
        let n = snd (copy (drop (o_n w) (bytes (o_buf w))) p);
            w1 = w\<lparr>o_buf := store_at (o_buf w) (o_n w) p, o_n := o_n w + n,
                   o_off := o_off w + of_nat n\<rparr>
        in if o_n w1 = Block then
             (case flush_old w1 of
                (Some err, w2) \<Rightarrow> ((0, Some err), w2)
              | (None, w2) \<Rightarrow>
                  ((n, None),
                   if o_NoZero w2 then w2\<lparr>o_buf := store_at (o_buf w2) 0 (bytes empty)\<rparr>
                   else w2))
           else ((n, None), w1))"

lemma write_step_old_progress:
  assumes "write_step_old w p = ((n, None), w')" and "p \<noteq> []"
  shows "0 < n \<or> (o_n w = Block \<and> o_n w' \<noteq> Block)"
  using assms
  by (auto simp: write_step_old_def Let_def flush_old_def copy_def Block_def
           split: if_splits prod.splits option.splits)

function Write_old ::
  "'s Writer_old \<Rightarrow> byte list \<Rightarrow> (nat \<times> error option) \<times> 's Writer_old" where
  "Write_old w p =
     (if p = [] then ((0, None), w)
      else
        case write_step_old w p of
          ((n, Some err), w1) \<Rightarrow> ((n, Some err), w1)
        | ((n, None), w1) \<Rightarrow>
            (case Write_old w1 (drop n p) of ((m, err), w2) \<Rightarrow> ((n + m, err), w2)))"
  by pat_completeness auto
termination
proof (relation "measures [\<lambda>(w, p). length p, \<lambda>(w, p). if o_n w = Block then 1 else 0]",
       goal_cases)
  case 1
  show ?case by simp
next
  case (2 w p x1 w1 n e)
  then have "write_step_old w p = ((n, None), w1)" by simp
  from write_step_old_progress [OF this \<open>p \<noteq> []\<close>] \<open>p \<noteq> []\<close> show ?case
    by auto
qed

declare Write_old.simps [simp del]

definition write_err_old :: "'s Writer_old \<Rightarrow> byte list \<Rightarrow> error option \<times> 's Writer_old" where
  "write_err_old w b = (case Write_old w b of ((n, err), w1) \<Rightarrow> (err, w1))"

definition WriteU8_old :: "'s Writer_old \<Rightarrow> byte \<Rightarrow> error option \<times> 's Writer_old" where
  "WriteU8_old w v = write_err_old w [v]"

definition WriteU16_old :: "'s Writer_old \<Rightarrow> 16 word \<Rightarrow> error option \<times> 's Writer_old" where
  "WriteU16_old w v = write_err_old w (PutUint16 v)"

definition WriteU32_old :: "'s Writer_old \<Rightarrow> 32 word \<Rightarrow> error option \<times> 's Writer_old" where
  "WriteU32_old w v = write_err_old w (PutUint32 v)"

definition WriteU64_old :: "'s Writer_old \<Rightarrow> 64 word \<Rightarrow> error option \<times> 's Writer_old" where
  "WriteU64_old w v = write_err_old w (PutUint64 v)"

definition WriteI8_old :: "'s Writer_old \<Rightarrow> byte \<Rightarrow> error option \<times> 's Writer_old" where
  "WriteI8_old w v = WriteU8_old w v"

definition WriteI16_old :: "'s Writer_old \<Rightarrow> 16 word \<Rightarrow> error option \<times> 's Writer_old" where
  "WriteI16_old w v = WriteU16_old w v"

definition WriteI32_old :: "'s Writer_old \<Rightarrow> 32 word \<Rightarrow> error option \<times> 's Writer_old" where
  "WriteI32_old w v = WriteU32_old w v"

definition WriteI64_old :: "'s Writer_old \<Rightarrow> 64 word \<Rightarrow> error option \<times> 's Writer_old" where
  "WriteI64_old w v = WriteU64_old w v"

definition WriteEmpty_old :: "'s Writer_old \<Rightarrow> error option \<times> 's Writer_old" where
  "WriteEmpty_old w =
     (case Flush_old w of
        (Some err, w1) \<Rightarrow> (Some err, w1)
      | (None, w1) \<Rightarrow>
          (let (err, d) = sink_write (o_w w1) (bytes empty)
           in (err, w1\<lparr>o_w := d, o_off := o_off w1 + of_nat Block\<rparr>)))"

section \<open>The source\<close>

text \<open>
  An \<open>io.Reader\<close> value is an object with its methods. The Reader below only calls
  \<open>io.ReadFull(r.r, buf)\<close> on it, so the object is given by what \<open>io.ReadFull\<close> does:
  it returns the bytes it stored at the start of \<open>buf\<close> and, when these are fewer than
  \<open>len(buf)\<close>, the error. The object may also implement \<open>io.Seeker\<close>;
  \<open>Seek(offset, whence)\<close> returns the new absolute offset or an error. Offsets are
  \<open>int64\<close>: 64-bit words whose \<open>+\<close> and \<open>-\<close> wrap around and whose value is read with
  \<open>sint\<close>. \<open>whence\<close> is only compared with the three constants.
\<close>

type_synonym int64 = "64 word"

record 's io_Reader =
  rd_obj :: 's
  rd_ReadFull :: "'s \<Rightarrow> nat \<Rightarrow> (byte list \<times> error option) \<times> 's"
  rd_Seek :: "('s \<Rightarrow> int64 \<Rightarrow> int \<Rightarrow> (int64 \<times> error option) \<times> 's) option"

definition SeekStart :: int where
  "SeekStart = 0"

definition SeekCurrent :: int where
  "SeekCurrent = 1"

definition SeekEnd :: int where
  "SeekEnd = 2"

section \<open>The Reader\<close>

text \<open>
  \<open>r.r\<close> and \<open>r.s\<close> are two views of one object: the object lives in \<open>r_r\<close> and \<open>r_s\<close>
  holds the \<open>Seek\<close> method when there is one. \<open>r.c\<close> may be nil (\<open>readNext\<close> tests it).
\<close>

record 's Reader =
  r_r :: "'s io_Reader"
  r_s :: "('s \<Rightarrow> int64 \<Rightarrow> int \<Rightarrow> (int64 \<times> error option) \<times> 's) option"
  r_c :: "Cipher option"
  r_buf :: block
  r_i :: int

definition Reset_r :: "'s Reader \<Rightarrow> 's io_Reader \<Rightarrow> 's Reader" where
  "Reset_r r s = r\<lparr>r_r := s, r_s := rd_Seek s, r_i := - 1\<rparr>"

definition fresh_Reader :: "Cipher \<Rightarrow> 's io_Reader \<Rightarrow> 's Reader" where
  "fresh_Reader c r =
     Reset_r \<lparr>r_r = r, r_s = None, r_c = Some c, r_buf = empty, r_i = 0\<rparr> r"

definition NewReader ::
  "(int \<Rightarrow> error + Cipher) \<Rightarrow> 's io_Reader \<Rightarrow> int \<Rightarrow> error + 's Reader" where
  "NewReader NewCipher r key =
     (case NewCipher key of
        Inl err \<Rightarrow> Inl err
      | Inr c \<Rightarrow> Inr (fresh_Reader c r))"

definition Buffered :: "'s Reader \<Rightarrow> int" where
  "Buffered r = (if r_i r < 0 \<or> r_i r \<ge> int Block then 0 else int Block - r_i r)"

text \<open>
  \<open>io.ReadFull\<close> writes what it got into \<open>r.buf\<close> also when it fails; the cursor and the
  decryption are skipped then.
\<close>

definition readNext :: "'s Reader \<Rightarrow> error option \<times> 's Reader" where
  "readNext r =
     (case rd_ReadFull (r_r r) (rd_obj (r_r r)) Block of
        ((got, err), obj) \<Rightarrow>
          (let r1 = r\<lparr>r_r := (r_r r)\<lparr>rd_obj := obj\<rparr>, r_buf := store_at (r_buf r) 0 got\<rparr>
           in case err of
                Some e \<Rightarrow> (Some e, r1)
              | None \<Rightarrow>
                  (let r2 = r1\<lparr>r_i := 0\<rparr>
                   in (None, case r_c r2 of
                               None \<Rightarrow> r2
                             | Some c \<Rightarrow> r2\<lparr>r_buf := Decrypt c (r_buf r2)\<rparr>))))"

text \<open>
  \<open>read(p)\<close> and \<open>Read(p)\<close> take the length of \<open>p\<close> and return the bytes stored at the
  start of \<open>p\<close>; the count \<open>n\<close> is their number.
\<close>

definition read_copy :: "'s Reader \<Rightarrow> nat \<Rightarrow> (byte list \<times> error option) \<times> 's Reader" where
  "read_copy r k =
     (let src = drop (nat (r_i r)) (bytes (r_buf r));
          n = min k (length src)
      in ((take n src, None), r\<lparr>r_i := r_i r + int n\<rparr>))"

definition read_step :: "'s Reader \<Rightarrow> nat \<Rightarrow> (byte list \<times> error option) \<times> 's Reader" where
  "read_step r k =
     (if r_i r < 0 \<or> r_i r \<ge> int Block then
        (case readNext r of
           (Some err, r1) \<Rightarrow> (([], Some err), r1)
         | (None, r1) \<Rightarrow> read_copy r1 k)
      else read_copy r k)"

lemma read_copy_progress:
  assumes "read_copy r k = ((got, err), r')" and "0 < k" and "r_i r < int Block"
  shows "0 < length got"
proof -
  from assms(3) have "nat (r_i r) < 8"
    by (simp add: Block_def)
  with assms(1,2) show ?thesis
    by (auto simp: read_copy_def Let_def min_def Block_def split: if_splits)
qed

lemma readNext_cursor:
  assumes "readNext r = (None, r')"
  shows "r_i r' = 0"
  using assms
  by (auto simp: readNext_def Let_def split: prod.splits option.splits)

lemma read_step_progress:
  assumes "read_step r k = ((got, None), r')" and "0 < k"
  shows "0 < length got"
proof (cases "r_i r < 0 \<or> r_i r \<ge> int Block")
  case True
  with assms(1) obtain r1 where next1: "readNext r = (None, r1)"
    and copy1: "read_copy r1 k = ((got, None), r')"
    by (auto simp: read_step_def split: prod.splits option.splits)
  from readNext_cursor [OF next1] have "r_i r1 < int Block"
    by (simp add: Block_def)
  from read_copy_progress [OF copy1 assms(2) this] show ?thesis .
next
  case False
  with assms(1) have "read_copy r k = ((got, None), r')"
    by (simp add: read_step_def)
  from read_copy_progress [OF this assms(2)] False show ?thesis
    by simp
qed

function Read :: "'s Reader \<Rightarrow> nat \<Rightarrow> (byte list \<times> error option) \<times> 's Reader" where
  "Read r k =
     (if k = 0 then (([], None), r)
      else
        case read_step r k of
          ((got, Some err), r1) \<Rightarrow> ((got, Some err), r1)
        | ((got, None), r1) \<Rightarrow>
            (case Read r1 (k - length got) of ((rest, err), r2) \<Rightarrow> ((got @ rest, err), r2)))"
  by pat_completeness auto
termination
proof (relation "measure (\<lambda>(r, k). k)", goal_cases)
  case 1
  show ?case by simp
next
  case (2 r k x1 r1 got e)
  then have "read_step r k = ((got, None), r1)" by simp
  from read_step_progress [OF this] \<open>k \<noteq> 0\<close> show ?case
    by auto
qed

declare Read.simps [simp del]

definition Align :: "'s Reader \<Rightarrow> error option \<times> 's Reader" where
  "Align r = (if Buffered r smod int Block \<noteq> 0 then readNext r else (None, r))"

definition ReadAligned :: "'s Reader \<Rightarrow> nat \<Rightarrow> (byte list \<times> error option) \<times> 's Reader" where
  "ReadAligned r k =
     (case Align r of
        (Some err, r1) \<Rightarrow> (([], Some err), r1)
      | (None, r1) \<Rightarrow>
          (case Read r1 8 of
             ((b, Some err), r2) \<Rightarrow> (([], Some err), r2)
           | ((b, None), r2) \<Rightarrow>
               if length b \<noteq> 8 then (([], Some ErrUnexpectedEOF), r2)
               else ((take k b, None), r2)))"

text \<open>
  \<open>Seek\<close> computes in \<open>int64\<close>: \<open>off -= int64(r.Buffered())\<close> wraps around. \<open>rem\<close> is
  \<open>cur \<percent> Block\<close>, the remainder that truncates towards zero (\<open>smod\<close>) of the signed value
  of \<open>cur\<close>; it lies strictly between \<open>-Block\<close> and \<open>Block\<close>, so it is kept as that integer,
  \<open>-rem\<close> is exact in \<open>int64\<close>, and \<open>int(rem)\<close> is the same integer.
\<close>

definition source_seek ::
  "('s \<Rightarrow> int64 \<Rightarrow> int \<Rightarrow> (int64 \<times> error option) \<times> 's) \<Rightarrow> 's Reader \<Rightarrow> int64 \<Rightarrow> int \<Rightarrow>
   (int64 \<times> error option) \<times> 's Reader" where
  "source_seek seek r off whence =
     (case seek (rd_obj (r_r r)) off whence of
        (res, obj) \<Rightarrow> (res, r\<lparr>r_r := (r_r r)\<lparr>rd_obj := obj\<rparr>\<rparr>))"

definition Seek :: "'s Reader \<Rightarrow> int64 \<Rightarrow> int \<Rightarrow> (int64 \<times> error option) \<times> 's Reader" where
  "Seek r off whence =
     (case r_s r of
        None \<Rightarrow> ((0, Some (ErrorString ''reader cannot seek'')), r)
      | Some seek \<Rightarrow>
          (let off1 = (if whence = SeekCurrent then off - of_int (Buffered r) else off);
               ((cur, err), r1) = source_seek seek r off1 whence;
               r2 = r1\<lparr>r_i := - 1\<rparr>
           in case err of
                Some e \<Rightarrow> ((0, Some e), r2)
              | None \<Rightarrow>
                  (let rem = sint cur smod int Block
                   in if rem = 0 then ((cur, None), r2)
                      else
                        (case source_seek seek r2 (of_int (- rem)) SeekCurrent of
                           ((cur2, Some e), r3) \<Rightarrow> ((0, Some e), r3)
                         | ((cur2, None), r3) \<Rightarrow>
                             (case readNext r3 of
                                (Some e, r4) \<Rightarrow> ((0, Some e), r4)
                              | (None, r4) \<Rightarrow> ((cur, None), r4\<lparr>r_i := rem\<rparr>))))))"

section \<open>An in-memory sink and an in-memory source\<close>

text \<open>
  The sink appends what it is given, like \<open>bytes.Buffer\<close>; the bounded one refuses a
  write that would exceed its capacity and stores nothing of it.
\<close>

definition mem_Write :: "byte list \<Rightarrow> byte list \<Rightarrow> error option \<times> byte list" where
  "mem_Write obj p = (None, obj @ p)"

definition mem_sink :: "byte list io_Writer" where
  "mem_sink = \<lparr>wr_obj = [], wr_Write = mem_Write, wr_WriteAt = None\<rparr>"

definition bounded_Write :: "nat \<Rightarrow> byte list \<Rightarrow> byte list \<Rightarrow> error option \<times> byte list" where
  "bounded_Write cap obj p =
     (if length obj + length p \<le> cap then (None, obj @ p)
      else (Some (ErrorString ''no space left''), obj))"

definition bounded_sink :: "nat \<Rightarrow> byte list io_Writer" where
  "bounded_sink cap = \<lparr>wr_obj = [], wr_Write = bounded_Write cap, wr_WriteAt = None\<rparr>"

text \<open>
  The source is a byte string with a position, like \<open>bytes.Reader\<close>. \<open>io.ReadFull\<close> on it
  returns \<open>k\<close> bytes when that many remain; otherwise it returns the remaining ones with
  \<open>io.ErrUnexpectedEOF\<close>, or \<open>io.EOF\<close> when none remains. Its \<open>Seek\<close> adds in \<open>int64\<close>
  (\<open>abs = r.i + offset\<close>, \<open>abs = int64(len(r.s)) + offset\<close>), refuses a negative result
  and an unknown \<open>whence\<close>, and otherwise moves to \<open>abs\<close>. The position and the length
  are below \<open>2 ^ 63\<close> in Go; they are natural numbers here.
\<close>

record mem_src =
  ms_data :: "byte list"
  ms_pos :: nat

definition mem_ReadFull :: "mem_src \<Rightarrow> nat \<Rightarrow> (byte list \<times> error option) \<times> mem_src" where
  "mem_ReadFull s k =
     (let rest = drop (ms_pos s) (ms_data s)
      in if k \<le> length rest then ((take k rest, None), s\<lparr>ms_pos := ms_pos s + k\<rparr>)
         else if rest = [] then (([], Some EOF), s)
         else ((rest, Some ErrUnexpectedEOF), s\<lparr>ms_pos := length (ms_data s)\<rparr>))"

definition mem_Seek :: "mem_src \<Rightarrow> int64 \<Rightarrow> int \<Rightarrow> (int64 \<times> error option) \<times> mem_src" where
  "mem_Seek s off whence =
     (if whence \<noteq> SeekStart \<and> whence \<noteq> SeekCurrent \<and> whence \<noteq> SeekEnd then
        ((0, Some (ErrorString ''bytes.Reader.Seek: invalid whence'')), s)
      else
        let abs = (if whence = SeekStart then off
                   else if whence = SeekCurrent then of_nat (ms_pos s) + off
                   else of_nat (length (ms_data s)) + off)
        in if sint abs < 0 then
             ((0, Some (ErrorString ''bytes.Reader.Seek: negative position'')), s)
           else ((abs, None), s\<lparr>ms_pos := nat (sint abs)\<rparr>))"

definition mem_source :: "byte list \<Rightarrow> mem_src io_Reader" where
  "mem_source data =
     \<lparr>rd_obj = \<lparr>ms_data = data, ms_pos = 0\<rparr>, rd_ReadFull = mem_ReadFull,
      rd_Seek = Some mem_Seek\<rparr>"

text \<open>The same source behind a wrapper without \<open>Seek\<close> (such as \<open>bufio.Reader\<close>).\<close>

definition mem_source_noseek :: "byte list \<Rightarrow> mem_src io_Reader" where
  "mem_source_noseek data = (mem_source data)\<lparr>rd_Seek := None\<rparr>"

text \<open>A cipher to run the definitions on: it adds the key byte to every byte of a block.\<close>

definition shift_block :: "byte \<Rightarrow> block \<Rightarrow> block" where
  "shift_block k b = Abs_block (map (\<lambda>x. x + k) (bytes b))"

lemma bytes_shift_block: "bytes (shift_block k b) = map (\<lambda>x. x + k) (bytes b)"
  by (simp add: shift_block_def Abs_block_inverse)

definition shift_cipher :: "byte \<Rightarrow> Cipher" where
  "shift_cipher k = \<lparr>Encrypt = shift_block k, Decrypt = shift_block (- k)\<rparr>"

text \<open>A constructor to run \<open>NewWriter\<close> and \<open>NewReader\<close> with: keys are the bytes.\<close>

definition shift_NewCipher :: "int \<Rightarrow> error + Cipher" where
  "shift_NewCipher key =
     (if 0 \<le> key \<and> key < 256 then Inr (shift_cipher (of_int key))
      else Inl (ErrorString ''invalid key''))"

section \<open>The two Writers side by side\<close>

text \<open>
  A caller's view of a Writer: the calls it can make on both variants, and what each call
  reports, namely the count (of \<open>Write\<close>; 0 for the other calls), the error, and
  \<open>Written()\<close> right after the call. \<open>WriteEmpty\<close> of the first variant also returns an
  offset, which the second variant does not have.
\<close>

datatype call =
    Call_Write "byte list"
  | Call_WriteU8 byte
  | Call_WriteU16 "16 word"
  | Call_WriteU32 "32 word"
  | Call_WriteU64 "64 word"
  | Call_WriteI8 byte
  | Call_WriteI16 "16 word"
  | Call_WriteI32 "32 word"
  | Call_WriteI64 "64 word"
  | Call_Flush
  | Call_Close
  | Call_WriteEmpty

type_synonym report = "nat \<times> error option \<times> 64 word"

definition report_err :: "error option \<times> 's Writer \<Rightarrow> report \<times> 's Writer" where
  "report_err res = (case res of (err, w) \<Rightarrow> ((0, err, Written w), w))"

fun do_call :: "'s Writer \<Rightarrow> call \<Rightarrow> report \<times> 's Writer" where
  "do_call w (Call_Write p) = (case Write w p of ((n, err), w1) \<Rightarrow> ((n, err, Written w1), w1))"
| "do_call w (Call_WriteU8 v) = report_err (WriteU8 w v)"
| "do_call w (Call_WriteU16 v) = report_err (WriteU16 w v)"
| "do_call w (Call_WriteU32 v) = report_err (WriteU32 w v)"
| "do_call w (Call_WriteU64 v) = report_err (WriteU64 w v)"
| "do_call w (Call_WriteI8 v) = report_err (WriteI8 w v)"
| "do_call w (Call_WriteI16 v) = report_err (WriteI16 w v)"
| "do_call w (Call_WriteI32 v) = report_err (WriteI32 w v)"
| "do_call w (Call_WriteI64 v) = report_err (WriteI64 w v)"
| "do_call w Call_Flush = report_err (Flush w)"
| "do_call w Call_Close = report_err (Close w)"
| "do_call w Call_WriteEmpty =
     (case WriteEmpty w of ((off, err), w1) \<Rightarrow> ((0, err, Written w1), w1))"

fun do_calls :: "'s Writer \<Rightarrow> call list \<Rightarrow> report list \<times> 's Writer" where
  "do_calls w [] = ([], w)"
| "do_calls w (x # xs) =
     (case do_call w x of (r, w1) \<Rightarrow>
        (case do_calls w1 xs of (rs, w2) \<Rightarrow> (r # rs, w2)))"

definition report_err_old :: "error option \<times> 's Writer_old \<Rightarrow> report \<times> 's Writer_old" where
  "report_err_old res = (case res of (err, w) \<Rightarrow> ((0, err, Written_old w), w))"

fun do_call_old :: "'s Writer_old \<Rightarrow> call \<Rightarrow> report \<times> 's Writer_old" where
  "do_call_old w (Call_Write p) =
     (case Write_old w p of ((n, err), w1) \<Rightarrow> ((n, err, Written_old w1), w1))"
| "do_call_old w (Call_WriteU8 v) = report_err_old (WriteU8_old w v)"
| "do_call_old w (Call_WriteU16 v) = report_err_old (WriteU16_old w v)"
| "do_call_old w (Call_WriteU32 v) = report_err_old (WriteU32_old w v)"
| "do_call_old w (Call_WriteU64 v) = report_err_old (WriteU64_old w v)"
| "do_call_old w (Call_WriteI8 v) = report_err_old (WriteI8_old w v)"
| "do_call_old w (Call_WriteI16 v) = report_err_old (WriteI16_old w v)"
| "do_call_old w (Call_WriteI32 v) = report_err_old (WriteI32_old w v)"
| "do_call_old w (Call_WriteI64 v) = report_err_old (WriteI64_old w v)"
| "do_call_old w Call_Flush = report_err_old (Flush_old w)"
| "do_call_old w Call_Close = report_err_old (Close_old w)"
| "do_call_old w Call_WriteEmpty = report_err_old (WriteEmpty_old w)"

fun do_calls_old :: "'s Writer_old \<Rightarrow> call list \<Rightarrow> report list \<times> 's Writer_old" where
  "do_calls_old w [] = ([], w)"
| "do_calls_old w (x # xs) =
     (case do_call_old w x of (r, w1) \<Rightarrow>
        (case do_calls_old w1 xs of (rs, w2) \<Rightarrow> (r # rs, w2)))"

text \<open>The fields the two variants share.\<close>

definition shared :: "'s Writer \<Rightarrow> 's Writer_old" where
  "shared w =
     \<lparr>o_w = w_w w, o_c = w_c w, o_buf = w_buf w, o_n = w_n w, o_off = w_off w,
      o_NoZero = w_NoZero w\<rparr>"

section \<open>Streams of blocks\<close>

text \<open>
  The wire format is a sequence of blocks. \<open>blocks_of\<close> cuts a byte string into its full
  blocks (a shorter rest is dropped); \<open>encrypt_stream\<close> and \<open>decrypt_stream\<close> map the
  cipher over them, the latter with the reader's optional cipher; \<open>pad\<close> fills a payload
  with zero bytes up to the next multiple of the block size.
\<close>

function blocks_of :: "byte list \<Rightarrow> block list" where
  "blocks_of xs =
     (if length xs < Block then [] else block_of (take Block xs) # blocks_of (drop Block xs))"
  by pat_completeness auto
termination
  by (relation "measure length") (auto simp: Block_def)

declare blocks_of.simps [simp del]

definition encrypt_stream :: "Cipher \<Rightarrow> byte list \<Rightarrow> byte list" where
  "encrypt_stream c xs = concat (map (\<lambda>b. bytes (Encrypt c b)) (blocks_of xs))"

definition dec_block :: "Cipher option \<Rightarrow> block \<Rightarrow> block" where
  "dec_block co b = (case co of None \<Rightarrow> b | Some c \<Rightarrow> Decrypt c b)"

definition decrypt_stream :: "Cipher option \<Rightarrow> byte list \<Rightarrow> byte list" where
  "decrypt_stream co xs = concat (map (\<lambda>b. bytes (dec_block co b)) (blocks_of xs))"

definition pad :: "byte list \<Rightarrow> byte list" where
  "pad xs = xs @ replicate ((Block - length xs mod Block) mod Block) 0"

section \<open>What a reader has pending\<close>

text \<open>
  What a reader over the in-memory source still has to deliver: the unread part of the
  loaded block, then the decryption of the full blocks left in the source.
\<close>

definition pending :: "mem_src Reader \<Rightarrow> byte list" where
  "pending r =
     (if 0 \<le> r_i r \<and> r_i r < int Block then drop (nat (r_i r)) (bytes (r_buf r)) else [])
     @ decrypt_stream (r_c r) (drop (ms_pos (rd_obj (r_r r))) (ms_data (rd_obj (r_r r))))"

definition over_mem :: "mem_src Reader \<Rightarrow> byte list \<Rightarrow> Cipher option \<Rightarrow> bool" where
  "over_mem r data co \<longleftrightarrow>
     rd_ReadFull (r_r r) = mem_ReadFull \<and> ms_data (rd_obj (r_r r)) = data \<and> r_c r = co"

section \<open>Properties of the checksum\<close>

lemma UpdateCRC_resume:
  "UpdateCRC (NOT (UpdateCRC crc a)) b = UpdateCRC crc (a @ b)"
  by (simp add: UpdateCRC_def)

lemma UpdateCRCStd_append:
  "UpdateCRCStd (UpdateCRCStd crc a) b = UpdateCRCStd crc (a @ b)"
  by (simp add: UpdateCRCStd_def simpleUpdate_def)

lemma UpdateCRC_one_call:
  "UpdateCRC ZeroCRC p = UpdateCRCStd ZeroCRCStd p"
proof -
  have "NOT ZeroCRCStd = ZeroCRC"
    by (simp add: ZeroCRC_def ZeroCRCStd_def)
  then show ?thesis
    by (simp add: UpdateCRC_def UpdateCRCStd_def simpleUpdate_def)
qed

section \<open>Evaluation and block lemmas\<close>

lemma funpow8: "(f ^^ 8) x = f (f (f (f (f (f (f (f x)))))))"
  by (simp add: eval_nat_numeral)

lemma crcTable_nth: "i < 256 \<Longrightarrow> crcTable ! i = populate_entry IEEE i"
  by (simp add: crcTable_def simpleMakeTable_def simplePopulateTable_def)

lemmas crc_eval = UpdateCRC_def ZeroCRC_def crc_byte_def crcTable_nth populate_entry_def funpow8
  populate_bit_def IEEE_def

lemma block_eqI: "bytes a = bytes b \<Longrightarrow> a = b"
  by (simp add: bytes_inject)

lemma bytes_store_at:
  "bytes (store_at b at src) =
     take at (bytes b) @ take (Block - at) src @ drop (at + length src) (bytes b)"
  by (simp add: store_at.rep_eq copy_def add.commute)

lemma bytes_empty: "bytes empty = replicate Block 0"
  by (simp add: empty.rep_eq)

lemma bytes_block_of:
  "bytes (block_of xs) = take Block xs @ replicate (Block - length xs) 0"
  by (simp add: block_of_def bytes_store_at bytes_empty)

lemma store_at_zero_tail:
  assumes "n \<le> Block"
  shows "store_at b n (bytes empty) = block_of (take n (bytes b))"
  using assms
  by (intro block_eqI) (simp add: bytes_store_at bytes_empty bytes_block_of min_def)

lemma replicate8: "replicate 8 x = [x, x, x, x, x, x, x, x]"
  by (simp add: eval_nat_numeral)

lemma UpdateCRC_zero_block: "UpdateCRC ZeroCRC (bytes empty) = 1696784233"
  by (simp add: bytes_empty Block_def replicate8 crc_eval)

lemmas writer_eval = Write.simps write_step_def flush_def Flush_def sink_write_def
  mem_sink_def mem_Write_def Let_def fresh_Writer_def Reset_def ResetCRC_def WriteEmpty_def
  CRC_def Written_def copy_def bytes_store_at bytes_empty bytes_block_of Block_def
  shift_cipher_def bytes_shift_block replicate8

lemmas reader_eval = Read.simps read_step_def read_copy_def readNext_def Buffered_def Align_def
  Seek_def source_seek_def fresh_Reader_def Reset_r_def mem_source_def mem_source_noseek_def
  mem_ReadFull_def mem_Seek_def SeekStart_def SeekCurrent_def SeekEnd_def Let_def Block_def
  bytes_store_at bytes_empty shift_cipher_def bytes_shift_block replicate8

section \<open>A failing sink\<close>

lemma write_step_error:
  assumes "w_n w < Block" and "write_step w p = ((t, Some e), w')"
  shows "t = 0 \<and> w_n w' = 0 \<and> w_off w' = w_off w + of_nat (Block - w_n w) \<and>
         Block - w_n w \<le> length p"
  using assms
  by (auto simp: write_step_def Let_def flush_def copy_def min_def
           split: if_splits prod.splits option.splits)

lemma write_step_ok:
  assumes "w_n w < Block" and "write_step w p = ((t, None), w')" and "p \<noteq> []"
  shows "w_off w' = w_off w + of_nat t \<and> 0 < t \<and>
         ((w_n w' = 0 \<and> t = Block - w_n w \<and> t \<le> length p) \<or>
          (t = length p \<and> w_n w' < Block))"
  using assms
  by (auto simp: write_step_def Let_def flush_def copy_def min_def
           split: if_splits prod.splits option.splits)

lemma Write_Nil: "Write w [] = ((0, None), w)"
  by (subst Write.simps) simp

lemma Write_step:
  "p \<noteq> [] \<Longrightarrow>
     Write w p =
       (case write_step w p of
          ((n, Some err), w1) \<Rightarrow> ((n, Some err), w1)
        | ((n, None), w1) \<Rightarrow>
            (case Write w1 (drop n p) of ((m, err), w2) \<Rightarrow> ((n + m, err), w2)))"
  by (subst Write.simps) simp

lemma Write_error:
  "w_n w < Block \<Longrightarrow> Write w p = ((t, Some e), w') \<Longrightarrow>
     w_n w' = 0 \<and>
     w_off w' = w_off w + of_nat t + of_nat (if t = 0 then Block - w_n w else Block) \<and>
     t + (if t = 0 then Block - w_n w else Block) \<le> length p"
proof (induction w p arbitrary: t w' rule: Write.induct)
  case (1 w p)
  from "1.prems"(2) have ne: "p \<noteq> []"
    by (auto simp: Write_Nil)
  obtain n err w1 where st: "write_step w p = ((n, err), w1)"
    by (metis surj_pair)
  show ?case
  proof (cases err)
    case (Some e1)
    with st "1.prems"(2) have "t = n" and "e = e1" and "w' = w1"
      by (auto simp: Write_step [OF ne])
    moreover from st Some have "write_step w p = ((n, Some e1), w1)"
      by simp
    from write_step_error [OF "1.prems"(1) this]
    have "n = 0" and "w_n w1 = 0" and "w_off w1 = w_off w + of_nat (Block - w_n w)"
      and "Block - w_n w \<le> length p"
      by auto
    ultimately show ?thesis
      by simp
  next
    case None
    obtain m w2 where rec: "Write w1 (drop n p) = ((m, Some e), w2)" and t: "t = n + m"
      and w': "w' = w2"
      using st None "1.prems"(2)
      by (auto simp: Write_step [OF ne] split: prod.splits)
    from st None have "write_step w p = ((n, None), w1)"
      by simp
    from write_step_ok [OF "1.prems"(1) this ne]
    have ok: "w_off w1 = w_off w + of_nat n" "0 < n"
      "(w_n w1 = 0 \<and> n = Block - w_n w \<and> n \<le> length p) \<or> (n = length p \<and> w_n w1 < Block)"
      by auto
    from rec have "drop n p \<noteq> []"
      by (auto simp: Write_Nil)
    with ok(3) have z: "w_n w1 = 0" and n: "n = Block - w_n w" and le: "n \<le> length p"
      by auto
    from z have "w_n w1 < Block"
      by (simp add: Block_def)
    from "1.IH" [OF ne st [symmetric] refl None this rec]
    have ih: "w_n w2 = 0"
      "w_off w2 = w_off w1 + of_nat m + of_nat (if m = 0 then Block - w_n w1 else Block)"
      "m + (if m = 0 then Block - w_n w1 else Block) \<le> length (drop n p)"
      by auto
    from ih z ok(1,2) t w' le show ?thesis
      by (auto simp: algebra_simps)
  qed
qed

text \<open>
  A step that fills the block, seen from the sink: what the sink answers to the block's
  ciphertext decides the step.
\<close>

lemma write_step_sink_fails:
  assumes "w_n w < Block" and "Block - w_n w \<le> length p"
    and "fst (sink_write (w_w w) (bytes (Encrypt (w_c w) (store_at (w_buf w) (w_n w) p))))
           = Some e"
  shows "write_step w p =
           ((0, Some e),
            w\<lparr>w_buf := store_at (w_buf w) (w_n w) p,
              w_crc := UpdateCRC (w_crc w) (bytes (store_at (w_buf w) (w_n w) p)),
              w_w := snd (sink_write (w_w w)
                       (bytes (Encrypt (w_c w) (store_at (w_buf w) (w_n w) p)))),
              w_off := w_off w + of_nat (Block - w_n w),
              w_n := 0\<rparr>)"
proof -
  from assms(1) have nb: "\<not> Block < w_n w"
    by simp
  from assms(1,2) have cp: "snd (copy (drop (w_n w) (bytes (w_buf w))) p) = Block - w_n w"
    by (simp add: copy_def)
  from assms(1) have full: "w_n w + (Block - w_n w) = Block"
    by simp
  obtain err d
    where sw: "sink_write (w_w w) (bytes (Encrypt (w_c w) (store_at (w_buf w) (w_n w) p)))
                 = (err, d)"
    by (metis surj_pair)
  with assms(3) have err: "err = Some e"
    by simp
  show ?thesis
    unfolding write_step_def Let_def cp full flush_def
    by (simp add: nb sw err del: of_nat_diff)
qed

lemma Write_sink_fails:
  assumes "w_n w < Block" and "Block - w_n w \<le> length p"
    and "fst (sink_write (w_w w) (bytes (Encrypt (w_c w) (store_at (w_buf w) (w_n w) p))))
           = Some e"
  shows "Write w p =
           ((0, Some e),
            w\<lparr>w_buf := store_at (w_buf w) (w_n w) p,
              w_crc := UpdateCRC (w_crc w) (bytes (store_at (w_buf w) (w_n w) p)),
              w_w := snd (sink_write (w_w w)
                       (bytes (Encrypt (w_c w) (store_at (w_buf w) (w_n w) p)))),
              w_off := w_off w + of_nat (Block - w_n w),
              w_n := 0\<rparr>)"
proof -
  from assms(1,2) have "p \<noteq> []"
    by auto
  then show ?thesis
    by (simp add: Write_step write_step_sink_fails [OF assms])
qed

lemma write_step_sink_accepts:
  assumes "w_n w < Block" and "Block - w_n w \<le> length p"
    and "fst (sink_write (w_w w) (bytes (Encrypt (w_c w) (store_at (w_buf w) (w_n w) p))))
           = None"
  shows "write_step w p =
           ((Block - w_n w, None),
            w\<lparr>w_buf := (if w_NoZero w
                          then store_at (store_at (w_buf w) (w_n w) p) 0 (bytes empty)
                          else store_at (w_buf w) (w_n w) p),
              w_crc := UpdateCRC (w_crc w) (bytes (store_at (w_buf w) (w_n w) p)),
              w_w := snd (sink_write (w_w w)
                       (bytes (Encrypt (w_c w) (store_at (w_buf w) (w_n w) p)))),
              w_off := w_off w + of_nat (Block - w_n w),
              w_n := 0\<rparr>)"
proof -
  from assms(1) have nb: "\<not> Block < w_n w"
    by simp
  from assms(1,2) have cp: "snd (copy (drop (w_n w) (bytes (w_buf w))) p) = Block - w_n w"
    by (simp add: copy_def)
  from assms(1) have full: "w_n w + (Block - w_n w) = Block"
    by simp
  obtain err d
    where sw: "sink_write (w_w w) (bytes (Encrypt (w_c w) (store_at (w_buf w) (w_n w) p)))
                 = (err, d)"
    by (metis surj_pair)
  with assms(3) have err: "err = None"
    by simp
  show ?thesis
    unfolding write_step_def Let_def cp full flush_def
    by (simp add: nb sw err del: of_nat_diff)
qed

lemma Write_sink_accepts:
  assumes "w_n w < Block" and "Block - w_n w \<le> length p"
    and "fst (sink_write (w_w w) (bytes (Encrypt (w_c w) (store_at (w_buf w) (w_n w) p))))
           = None"
  shows "Write w p =
           (case Write
                   (w\<lparr>w_buf := (if w_NoZero w
                                 then store_at (store_at (w_buf w) (w_n w) p) 0 (bytes empty)
                                 else store_at (w_buf w) (w_n w) p),
                      w_crc := UpdateCRC (w_crc w) (bytes (store_at (w_buf w) (w_n w) p)),
                      w_w := snd (sink_write (w_w w)
                               (bytes (Encrypt (w_c w) (store_at (w_buf w) (w_n w) p)))),
                      w_off := w_off w + of_nat (Block - w_n w),
                      w_n := 0\<rparr>)
                   (drop (Block - w_n w) p) of
              ((m, err), w2) \<Rightarrow> ((Block - w_n w + m, err), w2))"
proof -
  from assms(1,2) have "p \<noteq> []"
    by auto
  then show ?thesis
    by (simp add: Write_step write_step_sink_accepts [OF assms])
qed

text \<open>
  The bounded sink has room for \<open>j\<close> more blocks and not for \<open>j + 1\<close>; the input holds
  at least \<open>j + 1\<close> blocks.
\<close>

lemma sink_write_bounded:
  assumes "wr_Write d = bounded_Write cap"
  shows "sink_write d q =
           (if length (wr_obj d) + length q \<le> cap then (None, d\<lparr>wr_obj := wr_obj d @ q\<rparr>)
            else (Some (ErrorString ''no space left''), d))"
  using assms by (simp add: sink_write_def bounded_Write_def)

lemma Write_bounded:
  "w_n x = 0 \<Longrightarrow> wr_Write (w_w x) = bounded_Write cap \<Longrightarrow>
   length (wr_obj (w_w x)) + Block * j \<le> cap \<Longrightarrow>
   cap < length (wr_obj (w_w x)) + Block * Suc j \<Longrightarrow>
   Block * Suc j \<le> length y \<Longrightarrow>
     fst (Write x y) = (Block * j, Some (ErrorString ''no space left'')) \<and>
     w_n (snd (Write x y)) = 0 \<and>
     w_off (snd (Write x y)) = w_off x + of_nat (Block * Suc j) \<and>
     length (wr_obj (w_w (snd (Write x y)))) = length (wr_obj (w_w x)) + Block * j"
proof (induction j arbitrary: x y)
  case 0
  let ?blk = "store_at (w_buf x) (w_n x) y"
  from "0.prems"(1) have n: "w_n x < Block"
    by (simp add: Block_def)
  from "0.prems"(1,5) have len: "Block - w_n x \<le> length y"
    by simp
  from "0.prems"(4) have fails: "fst (sink_write (w_w x) (bytes (Encrypt (w_c x) ?blk)))
                                   = Some (ErrorString ''no space left'')"
    and same: "snd (sink_write (w_w x) (bytes (Encrypt (w_c x) ?blk))) = w_w x"
    by (simp_all add: sink_write_bounded [OF "0.prems"(2)])
  from Write_sink_fails [OF n len fails] "0.prems"(1) same show ?case
    by simp
next
  case (Suc j)
  let ?blk = "store_at (w_buf x) (w_n x) y"
  let ?d = "snd (sink_write (w_w x) (bytes (Encrypt (w_c x) ?blk)))"
  define x1 where "x1 = x\<lparr>w_buf := (if w_NoZero x then store_at ?blk 0 (bytes empty) else ?blk),
                           w_crc := UpdateCRC (w_crc x) (bytes ?blk),
                           w_w := ?d,
                           w_off := w_off x + of_nat (Block - w_n x),
                           w_n := 0\<rparr>"
  from Suc.prems(1) have n: "w_n x < Block"
    by (simp add: Block_def)
  from Suc.prems(1,5) have len: "Block - w_n x \<le> length y"
    by simp
  from Suc.prems(3) have room: "length (wr_obj (w_w x)) + Block \<le> cap"
    by simp
  then have ok: "fst (sink_write (w_w x) (bytes (Encrypt (w_c x) ?blk))) = None"
    and d: "wr_Write ?d = bounded_Write cap"
      "length (wr_obj ?d) = length (wr_obj (w_w x)) + Block"
    using Suc.prems(2) by (simp_all add: sink_write_bounded [OF Suc.prems(2)])
  have x1: "w_n x1 = 0" "wr_Write (w_w x1) = bounded_Write cap"
    "length (wr_obj (w_w x1)) = length (wr_obj (w_w x)) + Block"
    "w_off x1 = w_off x + of_nat Block"
    using d Suc.prems(1) by (simp_all add: x1_def)
  from Suc.prems(3,4,5) x1(3)
  have fits: "length (wr_obj (w_w x1)) + Block * j \<le> cap"
    and over: "cap < length (wr_obj (w_w x1)) + Block * Suc j"
    and rest: "Block * Suc j \<le> length (drop Block y)"
    by simp_all
  note ih = Suc.IH [OF x1(1,2) fits over rest]
  obtain m err x2 where rec: "Write x1 (drop Block y) = ((m, err), x2)"
    by (metis surj_pair)
  have "Write x y =
          (case Write x1 (drop (Block - w_n x) y) of
             ((m, err), w2) \<Rightarrow> ((Block - w_n x + m, err), w2))"
    unfolding x1_def by (rule Write_sink_accepts [OF n len ok])
  with rec Suc.prems(1) have "Write x y = ((Block + m, err), x2)"
    by simp
  with ih rec x1 show ?case
    by (simp add: add.assoc)
qed

section \<open>The two Writers agree\<close>

lemma shared_simps:
  "o_w (shared w) = w_w w" "o_c (shared w) = w_c w" "o_buf (shared w) = w_buf w"
  "o_n (shared w) = w_n w" "o_off (shared w) = w_off w" "o_NoZero (shared w) = w_NoZero w"
  by (simp_all add: shared_def)

lemma flush_shared: "flush_old (shared w) = (fst (flush w), shared (snd (flush w)))"
  by (simp add: flush_old_def flush_def Let_def shared_def split: prod.splits)

lemma Flush_shared: "Flush_old (shared w) = (fst (Flush w), shared (snd (Flush w)))"
  by (simp add: Flush_old_def Flush_def flush_old_def flush_def Let_def shared_def
           split: prod.splits)

lemma write_step_shared:
  "write_step_old (shared w) p = (fst (write_step w p), shared (snd (write_step w p)))"
  by (auto simp: write_step_old_def write_step_def flush_old_def flush_def Let_def shared_def
           split: prod.splits option.splits)

lemma Write_old_Nil: "Write_old w [] = ((0, None), w)"
  by (subst Write_old.simps) simp

lemma Write_old_step:
  "p \<noteq> [] \<Longrightarrow>
     Write_old w p =
       (case write_step_old w p of
          ((n, Some err), w1) \<Rightarrow> ((n, Some err), w1)
        | ((n, None), w1) \<Rightarrow>
            (case Write_old w1 (drop n p) of ((m, err), w2) \<Rightarrow> ((n + m, err), w2)))"
  by (subst Write_old.simps) simp

lemma Write_shared: "Write_old (shared w) p = (fst (Write w p), shared (snd (Write w p)))"
proof (induction w p rule: Write.induct)
  case (1 w p)
  show ?case
  proof (cases "p = []")
    case True
    then show ?thesis
      by (simp add: Write_Nil Write_old_Nil)
  next
    case False
    obtain n err w1 where st: "write_step w p = ((n, err), w1)"
      by (metis surj_pair)
    then have st_old: "write_step_old (shared w) p = ((n, err), shared w1)"
      by (simp add: write_step_shared)
    show ?thesis
    proof (cases err)
      case (Some e)
      with st st_old False show ?thesis
        by (simp add: Write_step Write_old_step)
    next
      case None
      from "1.IH" [OF False st [symmetric] refl None]
      have "Write_old (shared w1) (drop n p)
              = (fst (Write w1 (drop n p)), shared (snd (Write w1 (drop n p))))" .
      with st st_old None False show ?thesis
        by (simp add: Write_step Write_old_step split: prod.splits)
    qed
  qed
qed

lemma write_err_shared:
  "write_err_old (shared w) b = (fst (write_err w b), shared (snd (write_err w b)))"
  by (simp add: write_err_old_def write_err_def Write_shared split: prod.splits)

lemma WriteEmpty_shared:
  "WriteEmpty_old (shared w)
     = (snd (fst (WriteEmpty w)), shared (snd (WriteEmpty w)))"
proof -
  obtain err w1 where fl: "Flush w = (err, w1)"
    by (metis surj_pair)
  then have fl_old: "Flush_old (shared w) = (err, shared w1)"
    by (simp add: Flush_shared)
  from fl fl_old show ?thesis
    by (simp add: WriteEmpty_old_def WriteEmpty_def Let_def split: option.splits prod.splits)
       (simp add: shared_def)
qed

lemma do_call_shared:
  "do_call_old (shared w) x = (fst (do_call w x), shared (snd (do_call w x)))"
proof (cases x)
  case (Call_Write p)
  then show ?thesis
    by (simp add: Write_shared Written_def Written_old_def shared_simps split: prod.splits)
next
  case Call_WriteEmpty
  then show ?thesis
    by (simp add: WriteEmpty_shared report_err_old_def Written_def Written_old_def
             shared_simps split: prod.splits)
qed (simp_all add: report_err_def report_err_old_def Written_def Written_old_def
       WriteU8_def WriteU16_def WriteU32_def WriteU64_def WriteI8_def WriteI16_def WriteI32_def
       WriteI64_def WriteU8_old_def WriteU16_old_def WriteU32_old_def WriteU64_old_def
       WriteI8_old_def WriteI16_old_def WriteI32_old_def WriteI64_old_def Close_def Close_old_def
       write_err_shared Flush_shared shared_simps split: prod.splits)

lemma do_calls_shared:
  "do_calls_old (shared w) xs = (fst (do_calls w xs), shared (snd (do_calls w xs)))"
proof (induction xs arbitrary: w)
  case Nil
  show ?case by simp
next
  case (Cons x xs)
  show ?case
    by (simp add: do_call_shared Cons.IH split: prod.splits)
qed

lemma shared_fresh:
  "shared ((fresh_Writer c d)\<lparr>w_NoZero := z\<rparr>) = (fresh_Writer_old c d)\<lparr>o_NoZero := z\<rparr>"
  by (simp add: shared_def fresh_Writer_def fresh_Writer_old_def Reset_def ResetCRC_def
        Reset_old_def)

section \<open>Lemmas on streams of blocks\<close>

lemma blocks_of_short: "length xs < Block \<Longrightarrow> blocks_of xs = []"
  by (subst blocks_of.simps) simp

lemma blocks_of_long:
  "Block \<le> length xs \<Longrightarrow> blocks_of xs = block_of (take Block xs) # blocks_of (drop Block xs)"
  by (subst blocks_of.simps) simp

lemma bytes_block_of_full: "length xs = Block \<Longrightarrow> bytes (block_of xs) = xs"
  by (simp add: bytes_block_of)

lemma block_of_bytes: "block_of (bytes b) = b"
  by (rule block_eqI) (simp add: bytes_block_of)

lemma store_at_0_long: "Block \<le> length p \<Longrightarrow> store_at b 0 p = block_of (take Block p)"
  by (rule block_eqI) (simp add: bytes_store_at bytes_block_of)

lemma blocks_of_append:
  "length xs mod Block = 0 \<Longrightarrow> blocks_of (xs @ ys) = blocks_of xs @ blocks_of ys"
proof (induction xs rule: blocks_of.induct)
  case (1 xs)
  show ?case
  proof (cases "length xs < Block")
    case True
    with "1.prems" have "xs = []"
      by (simp add: Block_def)
    then show ?thesis
      by (simp add: blocks_of_short Block_def)
  next
    case False
    then have long: "Block \<le> length xs" "Block \<le> length (xs @ ys)"
      by simp_all
    have "n mod 8 = 0 \<Longrightarrow> (n - 8) mod 8 = 0" for n :: nat
      by (cases "8 \<le> n") (simp_all add: le_mod_geq)
    with "1.prems" have "length (drop Block xs) mod Block = 0"
      by (simp add: Block_def)
    from "1.IH" [OF False this] long show ?thesis
      by (simp add: blocks_of_long)
  qed
qed

lemma blocks_of_one: "length xs = Block \<Longrightarrow> blocks_of xs = [block_of xs]"
  by (simp add: blocks_of_long blocks_of_short Block_def)

lemma length_blocks_of: "length (blocks_of xs) = length xs div Block"
proof (induction xs rule: blocks_of.induct)
  case (1 xs)
  show ?case
  proof (cases "length xs < Block")
    case True
    then show ?thesis
      by (simp add: blocks_of_short)
  next
    case False
    then have "Block \<le> length xs"
      by simp
    with "1.IH" [OF False] show ?thesis
      by (simp add: blocks_of_long Block_def le_div_geq)
  qed
qed

lemma length_decrypt_stream: "length (decrypt_stream co xs) = Block * (length xs div Block)"
proof -
  have "length (concat (map (\<lambda>b. bytes (dec_block co b)) bs)) = Block * length bs" for bs
    by (induction bs) simp_all
  then show ?thesis
    by (simp add: decrypt_stream_def length_blocks_of)
qed

lemma decrypt_stream_short: "length xs < Block \<Longrightarrow> decrypt_stream co xs = []"
  by (simp add: decrypt_stream_def blocks_of_short)

lemma decrypt_stream_long:
  "Block \<le> length xs \<Longrightarrow>
     decrypt_stream co xs =
       bytes (dec_block co (block_of (take Block xs))) @ decrypt_stream co (drop Block xs)"
  by (simp add: decrypt_stream_def blocks_of_long)

lemma encrypt_stream_long:
  "Block \<le> length xs \<Longrightarrow>
     encrypt_stream c xs =
       bytes (Encrypt c (block_of (take Block xs))) @ encrypt_stream c (drop Block xs)"
  by (simp add: encrypt_stream_def blocks_of_long)

lemma encrypt_stream_short: "length xs < Block \<Longrightarrow> encrypt_stream c xs = []"
  by (simp add: encrypt_stream_def blocks_of_short)

lemma length_encrypt_stream: "length (encrypt_stream c xs) = Block * (length xs div Block)"
proof -
  have "length (concat (map (\<lambda>b. bytes (Encrypt c b)) bs)) = Block * length bs" for bs
    by (induction bs) simp_all
  then show ?thesis
    by (simp add: encrypt_stream_def length_blocks_of)
qed

text \<open>Decrypting what was encrypted, when \<open>Decrypt\<close> undoes \<open>Encrypt\<close>.\<close>

lemma decrypt_encrypt_stream:
  assumes inv: "\<forall>b. Decrypt c (Encrypt c b) = b"
  shows "length xs mod Block = 0 \<Longrightarrow> decrypt_stream (Some c) (encrypt_stream c xs) = xs"
proof (induction xs rule: blocks_of.induct)
  case (1 xs)
  show ?case
  proof (cases "length xs < Block")
    case True
    with "1.prems" have "xs = []"
      by (simp add: Block_def)
    then show ?thesis
      by (simp add: encrypt_stream_short decrypt_stream_short Block_def)
  next
    case False
    then have long: "Block \<le> length xs"
      by simp
    have "n mod 8 = 0 \<Longrightarrow> (n - 8) mod 8 = 0" for n :: nat
      by (cases "8 \<le> n") (simp_all add: le_mod_geq)
    with "1.prems" have rest: "length (drop Block xs) mod Block = 0"
      by (simp add: Block_def)
    let ?e = "bytes (Encrypt c (block_of (take Block xs)))"
    have enc: "encrypt_stream c xs = ?e @ encrypt_stream c (drop Block xs)"
      using long by (rule encrypt_stream_long)
    have "decrypt_stream (Some c) (?e @ encrypt_stream c (drop Block xs))
            = bytes (dec_block (Some c) (block_of ?e))
              @ decrypt_stream (Some c) (encrypt_stream c (drop Block xs))"
      by (subst decrypt_stream_long) simp_all
    also have "bytes (dec_block (Some c) (block_of ?e)) = take Block xs"
      using inv long by (simp add: dec_block_def block_of_bytes bytes_block_of_full)
    also have "decrypt_stream (Some c) (encrypt_stream c (drop Block xs)) = drop Block xs"
      using "1.IH" [OF False rest] .
    finally show ?thesis
      by (simp add: enc)
  qed
qed

text \<open>Arithmetic of block boundaries.\<close>

lemma floor_len: "(n - n mod 8) mod 8 = 0" for n :: nat
  by presburger

lemma rest_len: "n - (n - n mod 8) < 8" for n :: nat
  by presburger

lemma tail_len: "n mod 8 \<noteq> 0 \<Longrightarrow> n - (n - n mod 8) + (8 - n mod 8) mod 8 = 8" for n :: nat
proof -
  assume "n mod 8 \<noteq> 0"
  moreover have "n mod 8 \<le> n" "n mod 8 < 8"
    by simp_all
  ultimately show ?thesis
    by simp
qed

lemma pad_len: "(n + (8 - n mod 8) mod 8) mod 8 = 0" for n :: nat
proof (cases "n mod 8 = 0")
  case True
  then show ?thesis by simp
next
  case False
  have "n mod 8 < 8"
    by simp
  with False have "(8 - n mod 8) mod 8 = 8 - n mod 8"
    by simp
  moreover have "(n + (8 - n mod 8)) mod 8 = (n mod 8 + (8 - n mod 8)) mod 8"
    by (simp only: mod_add_left_eq)
  moreover have "n mod 8 + (8 - n mod 8) = 8"
    by simp
  ultimately show ?thesis
    by simp
qed

lemma block_step: "8 \<le> n \<Longrightarrow> 8 + (n - 8 - n mod 8) = n - n mod 8" for n :: nat
proof -
  assume "8 \<le> n"
  moreover have "8 * (n div 8) + n mod 8 = n"
    by simp
  ultimately have "8 + n mod 8 \<le> n"
    by (cases "n div 8") simp_all
  then show ?thesis
    by simp
qed

lemma mod_step: "8 \<le> n \<Longrightarrow> (n - 8) mod 8 = n mod 8" for n :: nat
  by (simp add: le_mod_geq)

lemma encrypt_stream_pad:
  "encrypt_stream c (pad p) =
     encrypt_stream c p @
       (if length p mod Block = 0 then []
        else bytes (Encrypt c (block_of (drop (length p - length p mod Block) p))))"
proof (cases "length p mod Block = 0")
  case True
  then have "pad p = p"
    by (simp add: pad_def Block_def)
  with True show ?thesis
    by simp
next
  case False
  let ?k = "length p - length p mod Block"
  let ?z = "replicate ((Block - length p mod Block) mod Block) (0::byte)"
  have "?k \<le> length p"
    by simp
  then have k: "length (take ?k p) mod Block = 0"
    by (simp add: Block_def min_absorb2 floor_len)
  have short: "length (drop ?k p) < Block"
    by (simp add: Block_def rest_len)
  from False have len: "length (drop ?k p @ ?z) = Block"
    by (simp add: Block_def tail_len)
  have last: "block_of (drop ?k p @ ?z) = block_of (drop ?k p)"
    using len by (intro block_eqI) (simp add: bytes_block_of)
  have "blocks_of (take ?k p @ drop ?k p) = blocks_of (take ?k p) @ blocks_of (drop ?k p)"
    using k by (rule blocks_of_append)
  then have whole: "blocks_of p = blocks_of (take ?k p)"
    by (simp only: append_take_drop_id blocks_of_short [OF short] append_Nil2)
  have "pad p = take ?k p @ (drop ?k p @ ?z)"
    by (simp only: pad_def append_assoc [symmetric] append_take_drop_id)
  then have "blocks_of (pad p) = blocks_of (take ?k p) @ blocks_of (drop ?k p @ ?z)"
    by (simp only: blocks_of_append [OF k])
  then have "blocks_of (pad p) = blocks_of p @ [block_of (drop ?k p)]"
    by (simp only: whole blocks_of_one [OF len] last)
  with False show ?thesis
    by (simp add: encrypt_stream_def)
qed

lemma length_pad: "length (pad p) mod Block = 0"
  by (simp add: pad_def Block_def pad_len)

section \<open>Writing to the in-memory sink\<close>

lemma write_step_mem_short:
  assumes "w_n w = 0" and "p \<noteq> []" and "length p < Block"
  shows "write_step w p =
           ((length p, None),
            w\<lparr>w_buf := store_at (w_buf w) 0 p, w_n := length p,
              w_off := w_off w + of_nat (length p)\<rparr>)"
  using assms by (simp add: write_step_def Let_def copy_def min_def)

lemma write_step_mem_long:
  assumes "w_n w = 0" and "Block \<le> length p" and "wr_Write (w_w w) = mem_Write"
  shows "fst (write_step w p) = (Block, None) \<and>
         w_n (snd (write_step w p)) = 0 \<and>
         wr_Write (w_w (snd (write_step w p))) = mem_Write \<and>
         wr_obj (w_w (snd (write_step w p)))
           = wr_obj (w_w w) @ bytes (Encrypt (w_c w) (block_of (take Block p))) \<and>
         w_c (snd (write_step w p)) = w_c w \<and>
         w_NoZero (snd (write_step w p)) = w_NoZero w"
  using assms
  by (simp add: write_step_def Let_def copy_def min_def flush_def sink_write_def mem_Write_def
        store_at_0_long)

lemma Write_mem:
  "w_n w = 0 \<Longrightarrow> wr_Write (w_w w) = mem_Write \<Longrightarrow>
     fst (Write w p) = (length p, None) \<and>
     wr_obj (w_w (snd (Write w p))) = wr_obj (w_w w) @ encrypt_stream (w_c w) p \<and>
     wr_Write (w_w (snd (Write w p))) = mem_Write \<and>
     w_n (snd (Write w p)) = length p mod Block \<and>
     take (length p mod Block) (bytes (w_buf (snd (Write w p))))
       = drop (length p - length p mod Block) p \<and>
     w_c (snd (Write w p)) = w_c w \<and>
     w_NoZero (snd (Write w p)) = w_NoZero w"
proof (induction p arbitrary: w rule: measure_induct_rule [where f = length])
  case (less p)
  note zero = \<open>w_n w = 0\<close> and mem = \<open>wr_Write (w_w w) = mem_Write\<close>
  consider "p = []" | "p \<noteq> []" "length p < Block" | "Block \<le> length p"
    by linarith
  then show ?case
  proof cases
    case 1
    with zero mem show ?thesis
      by (simp add: Write_Nil encrypt_stream_short Block_def)
  next
    case 2
    from write_step_mem_short [OF zero 2] 2 mem show ?thesis
      by (simp add: Write_step Write_Nil encrypt_stream_short bytes_store_at)
  next
    case 3
    note st = write_step_mem_long [OF zero 3 mem]
    obtain w1 where step: "write_step w p = ((Block, None), w1)"
      using st by (metis prod.collapse)
    with st have w1: "w_n w1 = 0" "wr_Write (w_w w1) = mem_Write"
      "wr_obj (w_w w1) = wr_obj (w_w w) @ bytes (Encrypt (w_c w) (block_of (take Block p)))"
      "w_c w1 = w_c w" "w_NoZero w1 = w_NoZero w"
      by simp_all
    from 3 have shorter: "length (drop Block p) < length p"
      by (simp add: Block_def)
    from 3 have ne: "p \<noteq> []"
      by (auto simp: Block_def)
    obtain m err w2 where rec: "Write w1 (drop Block p) = ((m, err), w2)"
      by (metis surj_pair)
    from less.IH [OF shorter w1(1,2)] rec
    have ih: "m = length p - Block" "err = None"
      "wr_obj (w_w w2) = wr_obj (w_w w1) @ encrypt_stream (w_c w1) (drop Block p)"
      "wr_Write (w_w w2) = mem_Write"
      "w_n w2 = (length p - Block) mod Block"
      "take ((length p - Block) mod Block) (bytes (w_buf w2))
         = drop (length p - Block - (length p - Block) mod Block) (drop Block p)"
      "w_c w2 = w_c w1" "w_NoZero w2 = w_NoZero w1"
      by simp_all
    have wr: "Write w p = ((Block + m, err), w2)"
      by (simp add: Write_step [OF ne] step rec)
    from 3 have md: "(length p - Block) mod Block = length p mod Block"
      by (simp add: Block_def mod_step)
    from 3 have d: "length p - (Block + length p mod Block) + Block
                      = length p - length p mod Block"
      using block_step [of "length p"] by (simp add: Block_def)
    from 3 have "fst (Write w p) = (length p, None)"
      by (simp add: wr ih(1,2))
    moreover have "wr_obj (w_w (snd (Write w p))) = wr_obj (w_w w) @ encrypt_stream (w_c w) p"
      by (simp add: wr ih(3) w1(3,4) encrypt_stream_long [OF 3])
    moreover have "take (length p mod Block) (bytes (w_buf (snd (Write w p))))
                     = drop (length p - length p mod Block) p"
      using ih(6) by (simp add: wr md d)
    ultimately show ?thesis
      by (simp add: wr ih(4,5,7,8) w1(4,5) md)
  qed
qed

lemma Flush_mem:
  assumes "\<not> w_NoZero w" and "w_n w < Block" and "wr_Write (w_w w) = mem_Write"
  shows "fst (Flush w) = None \<and>
         wr_obj (w_w (snd (Flush w))) =
           wr_obj (w_w w) @
             (if w_n w = 0 then []
              else bytes (Encrypt (w_c w) (block_of (take (w_n w) (bytes (w_buf w))))))"
  using assms
  by (simp add: Flush_def flush_def Let_def sink_write_def mem_Write_def store_at_zero_tail)

text \<open>What a fresh writer has put into the in-memory sink after \<open>Write\<close> and \<open>Flush\<close>.\<close>

lemma encode_mem:
  "fst (Write (fresh_Writer c mem_sink) p) = (length p, None) \<and>
   fst (Flush (snd (Write (fresh_Writer c mem_sink) p))) = None \<and>
   wr_obj (w_w (snd (Flush (snd (Write (fresh_Writer c mem_sink) p)))))
     = encrypt_stream c (pad p)"
proof -
  let ?w = "fresh_Writer c mem_sink :: byte list Writer"
  have fresh: "w_n ?w = 0" "wr_Write (w_w ?w) = mem_Write" "w_c ?w = c" "\<not> w_NoZero ?w"
    "wr_obj (w_w ?w) = []"
    by (simp_all add: fresh_Writer_def Reset_def ResetCRC_def mem_sink_def)
  note wr = Write_mem [OF fresh(1,2), of p]
  let ?w1 = "snd (Write ?w p)"
  have "w_n ?w1 < Block"
    using wr by (simp add: Block_def)
  from Flush_mem [OF _ this] wr fresh
  have "fst (Flush ?w1) = None"
    and "wr_obj (w_w (snd (Flush ?w1))) =
           encrypt_stream c p @
             (if length p mod Block = 0 then []
              else bytes (Encrypt c (block_of (drop (length p - length p mod Block) p))))"
    by simp_all
  with wr show ?thesis
    by (simp add: encrypt_stream_pad)
qed

section \<open>Reading from the in-memory source\<close>

lemma readNext_mem:
  assumes "over_mem r data co"
    and "Block \<le> length (drop (ms_pos (rd_obj (r_r r))) data)"
  shows "readNext r =
           (None,
            r\<lparr>r_r := (r_r r)\<lparr>rd_obj := (rd_obj (r_r r))\<lparr>ms_pos := ms_pos (rd_obj (r_r r)) + Block\<rparr>\<rparr>,
              r_buf := dec_block co
                 (block_of (take Block (drop (ms_pos (rd_obj (r_r r))) data))),
              r_i := 0\<rparr>)"
proof -
  let ?rest = "drop (ms_pos (rd_obj (r_r r))) data"
  have full: "mem_ReadFull (rd_obj (r_r r)) Block =
                ((take Block ?rest, None),
                 (rd_obj (r_r r))\<lparr>ms_pos := ms_pos (rd_obj (r_r r)) + Block\<rparr>)"
    using assms by (simp add: mem_ReadFull_def over_mem_def Let_def)
  have blk: "store_at (r_buf r) 0 (take Block ?rest) = block_of (take Block ?rest)"
    using assms(2) by (intro block_eqI) (simp add: bytes_store_at bytes_block_of)
  from assms(1) full blk show ?thesis
    by (cases co) (simp_all add: readNext_def over_mem_def Let_def dec_block_def)
qed

lemma readNext_pending:
  assumes "over_mem r data co"
    and "r_i r < 0 \<or> r_i r \<ge> int Block"
    and "Block \<le> length (drop (ms_pos (rd_obj (r_r r))) data)"
  shows "fst (readNext r) = None \<and> r_i (snd (readNext r)) = 0 \<and>
         pending (snd (readNext r)) = pending r \<and> over_mem (snd (readNext r)) data co"
proof -
  let ?rest = "drop (ms_pos (rd_obj (r_r r))) data"
  have "decrypt_stream co ?rest =
          bytes (dec_block co (block_of (take Block ?rest)))
          @ decrypt_stream co (drop Block ?rest)"
    using assms(3) by (rule decrypt_stream_long)
  with assms(1,2) show ?thesis
    by (simp add: readNext_mem [OF assms(1,3)] pending_def over_mem_def add.commute)
       (auto simp: Block_def)
qed

lemma read_copy_pending:
  assumes "over_mem r data co"
    and "0 \<le> r_i r" and "r_i r < int Block" and "k \<le> length (pending r)"
  shows "snd (fst (read_copy r k)) = None \<and>
         fst (fst (read_copy r k)) = take (length (fst (fst (read_copy r k)))) (pending r) \<and>
         length (fst (fst (read_copy r k))) \<le> k \<and>
         pending (snd (read_copy r k)) = drop (length (fst (fst (read_copy r k)))) (pending r) \<and>
         over_mem (snd (read_copy r k)) data co"
proof -
  let ?src = "drop (nat (r_i r)) (bytes (r_buf r))"
  let ?n = "min k (length ?src)"
  let ?rest = "decrypt_stream (r_c r) (drop (ms_pos (rd_obj (r_r r))) (ms_data (rd_obj (r_r r))))"
  have p: "pending r = ?src @ ?rest"
    using assms(2,3) by (simp add: pending_def)
  have res: "read_copy r k = ((take ?n ?src, None), r\<lparr>r_i := r_i r + int ?n\<rparr>)"
    by (simp add: read_copy_def Let_def)
  have len: "length (take ?n ?src) = ?n"
    by simp
  have after: "pending (r\<lparr>r_i := r_i r + int ?n\<rparr>) = drop ?n ?src @ ?rest"
  proof (cases "r_i r + int ?n < int Block")
    case True
    with assms(2) have "nat (r_i r + int ?n) = nat (r_i r) + ?n"
      by simp
    with True assms(2) show ?thesis
      by (simp add: pending_def add.commute)
  next
    case False
    with assms(2,3) have "?n = length ?src"
      by (simp add: min_def Block_def split: if_splits)
    with False show ?thesis
      by (simp add: pending_def)
  qed
  have "take ?n ?src = take ?n (pending r)" "drop ?n ?src @ ?rest = drop ?n (pending r)"
    by (simp_all add: p)
  moreover have "?n \<le> length (pending r)"
    using assms(4) by simp
  ultimately show ?thesis
    using res len after assms(1) by (simp add: over_mem_def min_absorb2)
qed

lemma read_step_pending:
  assumes "over_mem r data co" and "0 < k" and "k \<le> length (pending r)"
  shows "snd (fst (read_step r k)) = None \<and>
         fst (fst (read_step r k)) = take (length (fst (fst (read_step r k)))) (pending r) \<and>
         length (fst (fst (read_step r k))) \<le> k \<and>
         pending (snd (read_step r k)) = drop (length (fst (fst (read_step r k)))) (pending r) \<and>
         over_mem (snd (read_step r k)) data co"
proof (cases "r_i r < 0 \<or> r_i r \<ge> int Block")
  case False
  then have "read_step r k = read_copy r k"
    by (simp add: read_step_def)
  with read_copy_pending [OF assms(1) _ _ assms(3)] False show ?thesis
    by simp
next
  case True
  let ?rest = "drop (ms_pos (rd_obj (r_r r))) data"
  from True assms(1) have p: "pending r = decrypt_stream co ?rest"
    by (auto simp: pending_def over_mem_def)
  have long: "Block \<le> length ?rest"
  proof (rule ccontr)
    assume "\<not> Block \<le> length ?rest"
    then have "decrypt_stream co ?rest = []"
      by (simp add: decrypt_stream_short)
    with p assms(2,3) show False
      by simp
  qed
  obtain r1 where nx: "readNext r = (None, r1)"
    using readNext_pending [OF assms(1) True long] by (metis prod.collapse)
  with readNext_pending [OF assms(1) True long]
  have r1: "r_i r1 = 0" "pending r1 = pending r" "over_mem r1 data co"
    by simp_all
  from True nx have "read_step r k = read_copy r1 k"
    by (simp add: read_step_def)
  with read_copy_pending [OF r1(3), of k] r1(1,2) assms(3) show ?thesis
    by (simp add: Block_def)
qed

lemma Read_Zero: "Read r 0 = (([], None), r)"
  by (subst Read.simps) simp

lemma Read_step:
  "0 < k \<Longrightarrow>
     Read r k =
       (case read_step r k of
          ((got, Some err), r1) \<Rightarrow> ((got, Some err), r1)
        | ((got, None), r1) \<Rightarrow>
            (case Read r1 (k - length got) of ((rest, err), r2) \<Rightarrow> ((got @ rest, err), r2)))"
  by (subst Read.simps) simp

text \<open>Reading at most what is pending delivers exactly that prefix.\<close>

lemma Read_pending:
  "over_mem r data co \<Longrightarrow> k \<le> length (pending r) \<Longrightarrow>
     fst (Read r k) = (take k (pending r), None) \<and>
     pending (snd (Read r k)) = drop k (pending r) \<and>
     over_mem (snd (Read r k)) data co"
proof (induction k arbitrary: r rule: less_induct)
  case (less k)
  show ?case
  proof (cases "k = 0")
    case True
    with less.prems show ?thesis
      by (simp add: Read_Zero)
  next
    case False
    then have pos: "0 < k"
      by simp
    obtain got r1 where st: "read_step r k = ((got, None), r1)"
      using read_step_pending [OF less.prems(1) pos less.prems(2)]
      by (metis prod.collapse)
    with read_step_pending [OF less.prems(1) pos less.prems(2)]
    have got: "got = take (length got) (pending r)" "length got \<le> k"
      "pending r1 = drop (length got) (pending r)" "over_mem r1 data co"
      by simp_all
    from read_step_progress [OF st pos] have prog: "0 < length got" .
    obtain rest err r2 where rec: "Read r1 (k - length got) = ((rest, err), r2)"
      by (metis surj_pair)
    from prog pos have smaller: "k - length got < k"
      by simp
    from got(3) less.prems(2) have fits: "k - length got \<le> length (pending r1)"
      by simp
    from less.IH [OF smaller got(4) fits] rec
    have ih: "rest = take (k - length got) (pending r1)" "err = None"
      "pending r2 = drop (k - length got) (pending r1)" "over_mem r2 data co"
      by simp_all
    have all: "Read r k = ((got @ rest, err), r2)"
      by (simp add: Read_step [OF pos] st rec)
    have "got @ rest = take k (pending r)"
    proof -
      have "take k (pending r)
              = take (length got) (pending r) @ take (k - length got) (drop (length got) (pending r))"
        using got(2) by (metis add_diff_inverse_nat linorder_not_less take_add)
      with got(1,3) ih(1) show ?thesis
        by simp
    qed
    moreover have "pending r2 = drop k (pending r)"
      using got(2) by (simp add: ih(3) got(3))
    ultimately show ?thesis
      by (simp add: all ih(2,4))
  qed
qed

lemma pending_fresh:
  "pending (fresh_Reader c (mem_source data)) = decrypt_stream (Some c) data \<and>
   over_mem (fresh_Reader c (mem_source data)) data (Some c)"
  by (simp add: pending_def over_mem_def fresh_Reader_def Reset_r_def mem_source_def)

lemma shift_cipher_inverse: "Decrypt (shift_cipher k) (Encrypt (shift_cipher k) b) = b"
  by (rule block_eqI) (simp add: shift_cipher_def bytes_shift_block o_def)

section \<open>Seeking in the in-memory source\<close>

lemma decrypt_stream_drop:
  "decrypt_stream co (drop (Block * j) xs) = drop (Block * j) (decrypt_stream co xs)"
proof (induction j arbitrary: xs)
  case 0
  show ?case by simp
next
  case (Suc j)
  show ?case
  proof (cases "length xs < Block")
    case True
    then show ?thesis
      by (simp add: decrypt_stream_short)
  next
    case False
    then have long: "Block \<le> length xs"
      by simp
    have "drop (Block * Suc j) xs = drop (Block * j) (drop Block xs)"
      by (simp add: add.commute)
    then have "decrypt_stream co (drop (Block * Suc j) xs)
                 = drop (Block * j) (decrypt_stream co (drop Block xs))"
      by (simp only: Suc.IH)
    also have "\<dots> = drop (Block * Suc j) (decrypt_stream co xs)"
      by (simp add: decrypt_stream_long [OF long])
    finally show ?thesis .
  qed
qed

lemma smod_int_nat: "int a smod int b = int (a mod b)"
  by (simp add: smod_int_alt_def sgn_if zmod_int)

lemma block_floor: "Block * (a div Block) = a - a mod Block"
  by (simp add: minus_mod_eq_mult_div)

lemma block_room:
  assumes "length data mod Block = 0" and "a < length data"
  shows "a - a mod Block + Block \<le> length data"
proof -
  from assms(1) have whole: "Block * (length data div Block) = length data"
    by (simp add: mod_eq_0_iff_dvd)
  have "a div Block < length data div Block"
  proof (rule ccontr)
    assume "\<not> a div Block < length data div Block"
    then have "Block * (length data div Block) \<le> Block * (a div Block)"
      by simp
    also have "\<dots> \<le> a"
      by simp
    finally show False
      using whole assms(2) by simp
  qed
  then have "Suc (a div Block) \<le> length data div Block"
    by simp
  then have "Block * Suc (a div Block) \<le> Block * (length data div Block)"
    by (rule mult_le_mono2)
  then have "Block * (a div Block) + Block \<le> Block * (length data div Block)"
    by (simp add: add.commute)
  with whole show ?thesis
    by (simp add: block_floor)
qed

lemma sint_of_nat_small: "n < 2 ^ 63 \<Longrightarrow> sint (of_nat n :: int64) = int n"
  by (simp add: signed_of_nat signed_take_bit_int_eq_self)

lemma Seek_mem:
  assumes over: "over_mem r data co"
    and seeker: "r_s r = Some mem_Seek"
    and whole: "length data mod Block = 0"
    and small: "a < 2 ^ 63"
    and inside: "a < length data"
  shows "fst (Seek r (of_nat a) SeekStart) = (of_nat a, None) \<and>
         pending (snd (Seek r (of_nat a) SeekStart)) = drop a (decrypt_stream co data) \<and>
         over_mem (snd (Seek r (of_nat a) SeekStart)) data co \<and>
         (a mod Block \<noteq> 0 \<longrightarrow>
            r_i (snd (Seek r (of_nat a) SeekStart)) = int (a mod Block) \<and>
            ms_pos (rd_obj (r_r (snd (Seek r (of_nat a) SeekStart)))) = a - a mod Block + Block \<and>
            r_buf (snd (Seek r (of_nat a) SeekStart))
              = dec_block co (block_of (take Block (drop (a - a mod Block) data))))"
proof -
  let ?s = "rd_obj (r_r r)"
  let ?b = "a - a mod Block"
  define r2 where "r2 = r\<lparr>r_r := (r_r r)\<lparr>rd_obj := ?s\<lparr>ms_pos := a\<rparr>\<rparr>, r_i := - 1\<rparr>"
  from small have sa: "sint (of_nat a :: int64) = int a"
    by (rule sint_of_nat_small)
  from small have "?b < 2 ^ 63"
    by linarith
  then have sb: "sint (of_nat ?b :: int64) = int ?b"
    by (rule sint_of_nat_small)
  have seek1: "source_seek mem_Seek r (of_nat a) SeekStart
                 = ((of_nat a, None), r\<lparr>r_r := (r_r r)\<lparr>rd_obj := ?s\<lparr>ms_pos := a\<rparr>\<rparr>\<rparr>)"
    by (simp add: source_seek_def mem_Seek_def SeekStart_def SeekCurrent_def SeekEnd_def Let_def
          sa)
  have start: "SeekStart \<noteq> SeekCurrent"
    by (simp add: SeekStart_def SeekCurrent_def)
  have rem: "sint (of_nat a :: int64) smod int Block = int (a mod Block)"
    by (simp only: sa smod_int_nat)
  have over2: "over_mem r2 data co" and i2: "r_i r2 = - 1"
    and pos2: "ms_pos (rd_obj (r_r r2)) = a" and s2: "r_s r2 = Some mem_Seek"
    using over seeker by (simp_all add: r2_def over_mem_def)
  have floor_drop: "drop ?b (decrypt_stream co data) = decrypt_stream co (drop ?b data)"
    using decrypt_stream_drop [of co "a div Block" data] by (simp add: block_floor)
  show ?thesis
  proof (cases "a mod Block = 0")
    case True
    then have res: "Seek r (of_nat a) SeekStart = ((of_nat a, None), r2)"
      by (simp add: Seek_def seeker start seek1 Let_def rem r2_def)
    from True floor_drop have "pending r2 = drop a (decrypt_stream co data)"
      using over2 i2 pos2 by (simp add: pending_def over_mem_def)
    with res over2 True show ?thesis
      by simp
  next
    case False
    define r3 where "r3 = r2\<lparr>r_r := (r_r r2)\<lparr>rd_obj := (rd_obj (r_r r2))\<lparr>ms_pos := ?b\<rparr>\<rparr>\<rparr>"
    have le: "a mod Block \<le> a"
      by simp
    define b where "b = a - a mod Block"
    have sum: "(of_nat a :: int64) + - of_nat (a mod Block) = of_nat b"
      using le by (simp add: b_def of_nat_diff)
    have sb': "sint (of_nat b :: int64) = int b"
      using sb by (simp only: b_def)
    have step: "mem_Seek (rd_obj (r_r r2)) (- of_nat (a mod Block)) SeekCurrent
                  = ((of_nat b, None), (rd_obj (r_r r2))\<lparr>ms_pos := b\<rparr>)"
      unfolding mem_Seek_def Let_def pos2
      by (simp only: sum) (simp add: SeekStart_def SeekCurrent_def SeekEnd_def sb')
    have seek2: "source_seek mem_Seek r2 (- of_nat (a mod Block)) SeekCurrent
                   = ((of_nat b, None), r3)"
      by (simp add: source_seek_def step r3_def b_def)
    then have seek2o: "source_seek mem_Seek r2 (of_int (- int (a mod Block))) SeekCurrent
                   = ((of_nat b, None), r3)"
      by simp
    have over3: "over_mem r3 data co" and i3: "r_i r3 < 0 \<or> r_i r3 \<ge> int Block"
      and pos3: "ms_pos (rd_obj (r_r r3)) = ?b"
      using over2 i2 by (simp_all add: r3_def over_mem_def)
    from block_room [OF whole inside]
    have room: "Block \<le> length (drop (ms_pos (rd_obj (r_r r3))) data)"
      by (simp add: pos3)
    define r4 where "r4 = snd (readNext r3)"
    from readNext_mem [OF over3 room]
    have nx: "readNext r3 = (None, r4)"
      and buf4: "r_buf r4 = dec_block co (block_of (take Block (drop ?b data)))"
      and pos4: "ms_pos (rd_obj (r_r r4)) = ?b + Block"
      by (simp_all add: r4_def pos3)
    from readNext_pending [OF over3 i3 room]
    have i4: "r_i r4 = 0" and pend4: "pending r4 = pending r3" and over4: "over_mem r4 data co"
      by (simp_all add: r4_def)
    from False have nz: "int (a mod Block) \<noteq> 0"
      by simp
    have res: "Seek r (of_nat a) SeekStart = ((of_nat a, None), r4\<lparr>r_i := int (a mod Block)\<rparr>)"
      using nz
      by (simp add: Seek_def seeker start seek1 Let_def rem r2_def [symmetric] seek2 seek2o nx)
    have "pending r3 = decrypt_stream co (drop ?b data)"
      using over3 i3 pos3 by (auto simp: pending_def over_mem_def)
    with pend4 floor_drop have p4: "pending r4 = drop ?b (decrypt_stream co data)"
      by simp
    have lt: "a mod Block < Block"
      by (simp add: Block_def)
    have "pending (r4\<lparr>r_i := int (a mod Block)\<rparr>) = drop (a mod Block) (pending r4)"
      using i4 lt by (simp add: pending_def)
    also have "\<dots> = drop a (decrypt_stream co data)"
      by (simp add: p4)
    finally have "pending (r4\<lparr>r_i := int (a mod Block)\<rparr>) = drop a (decrypt_stream co data)" .
    with res over4 buf4 pos4 show ?thesis
      by (simp add: over_mem_def)
  qed
qed

section \<open>The claims\<close>

text \<open>
  C1 (confirmed). \<open>NewCipher\<close> accepts the key and gives a cipher whose \<open>Decrypt\<close> undoes
  its \<open>Encrypt\<close>. A fresh writer (\<open>NoZero\<close> unset) over the in-memory sink takes the
  whole payload and flushes without error; the stream it leaves has the length of the
  payload rounded up to a multiple of \<open>Block\<close>; a fresh reader with the same key over that
  stream, asked for that many bytes, returns the payload followed by zero bytes, without
  error.
\<close>

theorem C1_round_trip:
  fixes p :: "byte list" and c :: Cipher
  defines "stream \<equiv> wr_obj (w_w (snd (Flush (snd (Write (fresh_Writer c mem_sink) p)))))"
  assumes "NewCipher key = Inr c" and "\<forall>b. Decrypt c (Encrypt c b) = b"
  shows "NewWriter NewCipher mem_sink key = Inr (fresh_Writer c mem_sink) \<and>
         fst (Write (fresh_Writer c mem_sink) p) = (length p, None) \<and>
         fst (Flush (snd (Write (fresh_Writer c mem_sink) p))) = None \<and>
         length stream = length p + (Block - length p mod Block) mod Block \<and>
         NewReader NewCipher (mem_source stream) key
           = Inr (fresh_Reader c (mem_source stream)) \<and>
         fst (Read (fresh_Reader c (mem_source stream)) (length stream))
           = (p @ replicate ((Block - length p mod Block) mod Block) 0, None)"
proof -
  note enc = encode_mem [of c p]
  from enc have stream: "stream = encrypt_stream c (pad p)"
    by (simp add: stream_def)
  have "Block * (length (pad p) div Block) = length (pad p)"
    using length_pad [of p] by (simp add: mod_eq_0_iff_dvd)
  then have len: "length stream = length (pad p)"
    by (simp add: stream length_encrypt_stream)
  have plain: "decrypt_stream (Some c) stream = pad p"
    unfolding stream using assms(3) length_pad by (rule decrypt_encrypt_stream)
  note fresh = pending_fresh [of c stream]
  from fresh plain len have "length stream \<le> length (pending (fresh_Reader c (mem_source stream)))"
    by simp
  from Read_pending [OF conjunct2 [OF fresh] this] fresh plain len
  have "fst (Read (fresh_Reader c (mem_source stream)) (length stream)) = (pad p, None)"
    by simp
  with enc len assms(2) show ?thesis
    by (simp add: NewWriter_def NewReader_def pad_def)
qed

theorem C1_round_trip_witness:
  "shift_NewCipher 1 = Inr (shift_cipher 1) \<and>
   (\<forall>b. Decrypt (shift_cipher 1) (Encrypt (shift_cipher 1) b) = b) \<and>
   wr_obj (w_w (snd (Flush (snd (Write (fresh_Writer (shift_cipher 1) mem_sink) [1, 2, 3])))))
     = [2, 3, 4, 1, 1, 1, 1, 1] \<and>
   fst (Read (fresh_Reader (shift_cipher 1) (mem_source [2, 3, 4, 1, 1, 1, 1, 1])) 8)
     = ([1, 2, 3, 0, 0, 0, 0, 0], None)"
proof -
  have key: "shift_NewCipher 1 = Inr (shift_cipher 1)"
    by (simp add: shift_NewCipher_def)
  have inv: "\<forall>b. Decrypt (shift_cipher 1) (Encrypt (shift_cipher 1) b) = b"
    by (simp add: shift_cipher_inverse)
  have out: "wr_obj (w_w (snd (Flush (snd (Write (fresh_Writer (shift_cipher 1) mem_sink)
               [1, 2, 3]))))) = [2, 3, 4, 1, 1, 1, 1, 1]"
    by (simp add: writer_eval)
  let ?out = "wr_obj (w_w (snd (Flush (snd (Write (fresh_Writer (shift_cipher 1) mem_sink)
               [1, 2, 3])))))"
  from C1_round_trip [where NewCipher = shift_NewCipher and key = 1 and c = "shift_cipher 1"
      and p = "[1, 2, 3]", OF key inv]
  have "fst (Read (fresh_Reader (shift_cipher 1) (mem_source ?out)) (length ?out))
          = ([1, 2, 3] @ replicate ((Block - length [1, 2, 3 :: byte] mod Block) mod Block) 0,
             None)"
    by blast
  moreover have "length [2, 3, 4, 1, 1, 1, 1, 1 :: byte] = 8"
    by simp
  moreover have "(Block - length [1, 2, 3 :: byte] mod Block) mod Block = 5"
    by (simp add: Block_def)
  moreover have "replicate 5 (0 :: byte) = [0, 0, 0, 0, 0]"
    by (simp add: eval_nat_numeral)
  ultimately have "fst (Read (fresh_Reader (shift_cipher 1)
                     (mem_source [2, 3, 4, 1, 1, 1, 1, 1])) 8)
                     = ([1, 2, 3, 0, 0, 0, 0, 0], None)"
    by (simp only: out append.simps)
  with key inv out show ?thesis
    by blast
qed

text \<open>
  C2 (corrected). The claim: for the variant the writer uses, feeding \<open>A\<close> and then \<open>B\<close>,
  starting from \<open>ZeroCRC\<close>, gives the value of one call over \<open>A @ B\<close>. \<open>UpdateCRC\<close>
  inverts its result and not its argument, so the value it returns is the complement of
  the running state: the second call has to start from the complement of the first
  result. Fed back as it is, the result continues correctly only in the standard
  variant \<open>UpdateCRCStd\<close>, which inverts at both ends; the two variants agree on a single
  call from their start values.
\<close>

theorem C2_checksum_resume:
  "UpdateCRC (NOT (UpdateCRC ZeroCRC a)) b = UpdateCRC ZeroCRC (a @ b) \<and>
   UpdateCRCStd (UpdateCRCStd ZeroCRCStd a) b = UpdateCRCStd ZeroCRCStd (a @ b) \<and>
   UpdateCRC ZeroCRC a = UpdateCRCStd ZeroCRCStd a"
  using UpdateCRC_resume [of ZeroCRC a b] UpdateCRCStd_append [of ZeroCRCStd a b]
    UpdateCRC_one_call [of a]
  by (intro conjI)

text \<open>The claim as stated fails for \<open>A = [1]\<close> and \<open>B = [2]\<close>.\<close>

theorem C2_checksum_split_counterexample:
  "UpdateCRC (UpdateCRC ZeroCRC [1]) [2] \<noteq> UpdateCRC ZeroCRC ([1] @ [2])"
  by (simp add: crc_eval)

text \<open>
  C3 (corrected). The claim: \<open>WriteEmpty\<close> flushes the pending data, writes one block
  of zero bytes to the sink without encrypting it and without including it in the
  checksum, advances the offset by one block and returns the offset at which the
  placeholder begins. The code does feed the zero block to the checksum
  (\<open>w.crc = UpdateCRC(w.crc, empty[:])\<close>); the rest holds. Amended: when the flush
  succeeds, with \<open>w1\<close> the writer after it, the sink receives \<open>Block\<close> zero bytes as they
  are, the checksum becomes \<open>UpdateCRC (w_crc w1)\<close> of these zero bytes, the offset
  advances by \<open>Block\<close>, the buffer and its cursor stay as the flush left them, and the
  call returns \<open>w_off w1\<close> with the error of the sink's write; on a fresh writer that
  offset is 0.
\<close>

theorem C3_WriteEmpty:
  assumes "fst (Flush w) = None"
  shows "fst (WriteEmpty w) =
           (w_off (snd (Flush w)), fst (sink_write (w_w (snd (Flush w))) (replicate Block 0))) \<and>
         w_w (snd (WriteEmpty w)) =
           snd (sink_write (w_w (snd (Flush w))) (replicate Block 0)) \<and>
         w_crc (snd (WriteEmpty w)) = UpdateCRC (w_crc (snd (Flush w))) (replicate Block 0) \<and>
         w_off (snd (WriteEmpty w)) = w_off (snd (Flush w)) + of_nat Block \<and>
         w_buf (snd (WriteEmpty w)) = w_buf (snd (Flush w)) \<and>
         w_n (snd (WriteEmpty w)) = w_n (snd (Flush w)) \<and>
         fst (fst (WriteEmpty (fresh_Writer c d))) = 0"
proof -
  obtain w1 where fl: "Flush w = (None, w1)"
    using assms by (cases "Flush w") auto
  obtain err d1 where sw: "sink_write (w_w w1) (replicate Block 0) = (err, d1)"
    by (cases "sink_write (w_w w1) (replicate Block 0)") auto
  have fresh: "fst (fst (WriteEmpty (fresh_Writer c d))) = 0"
    by (simp add: WriteEmpty_def Flush_def fresh_Writer_def Reset_def ResetCRC_def Let_def
             split: prod.splits)
  from fl sw fresh show ?thesis
    by (simp add: WriteEmpty_def Let_def bytes_empty)
qed

text \<open>
  The writer holds the three pending bytes 1, 2, 3 over the in-memory sink, with the
  cipher that adds 1 to every byte.
\<close>

theorem C3_WriteEmpty_witness:
  "fst (Flush (snd (Write (fresh_Writer (shift_cipher 1) mem_sink) [1, 2, 3]))) = None \<and>
   fst (WriteEmpty (snd (Write (fresh_Writer (shift_cipher 1) mem_sink) [1, 2, 3])))
     = (8, None) \<and>
   wr_obj (w_w (snd (WriteEmpty (snd (Write (fresh_Writer (shift_cipher 1) mem_sink) [1, 2, 3])))))
     = [2, 3, 4, 1, 1, 1, 1, 1, 0, 0, 0, 0, 0, 0, 0, 0] \<and>
   w_off (snd (WriteEmpty (snd (Write (fresh_Writer (shift_cipher 1) mem_sink) [1, 2, 3]))))
     = 16"
proof -
  have h: "fst (Flush (snd (Write (fresh_Writer (shift_cipher 1) mem_sink) [1, 2, 3]))) = None"
    by (simp add: writer_eval)
  show ?thesis
    using h C3_WriteEmpty [OF h]
    by (simp add: writer_eval)
qed

text \<open>
  The claim as stated fails on a fresh writer: the checksum after \<open>WriteEmpty\<close> is not
  the checksum before it.
\<close>

theorem C3_checksum_unchanged_counterexample:
  "CRC (snd (WriteEmpty (fresh_Writer (shift_cipher 1) mem_sink)))
     \<noteq> CRC (fresh_Writer (shift_cipher 1) mem_sink)"
proof -
  have "CRC (snd (WriteEmpty (fresh_Writer (shift_cipher 1) mem_sink)))
          = UpdateCRC ZeroCRC (bytes empty)"
    by (simp add: WriteEmpty_def Flush_def fresh_Writer_def Reset_def ResetCRC_def Let_def
          CRC_def sink_write_def mem_sink_def mem_Write_def)
  moreover have "CRC (fresh_Writer (shift_cipher 1) mem_sink) = ZeroCRC"
    by (simp add: fresh_Writer_def Reset_def ResetCRC_def CRC_def)
  ultimately show ?thesis
    by (simp only: UpdateCRC_zero_block) (simp add: ZeroCRC_def)
qed

text \<open>
  C4 (confirmed). On a fresh writer (\<open>NoZero\<close> unset) over the in-memory sink, writing
  1, 2, 3 and calling \<open>Flush\<close> emits exactly one block, the encryption of
  01 02 03 00 00 00 00 00, without error; the checksum is taken over the same padded
  plaintext. In general, with \<open>NoZero\<close> unset and a partly filled buffer, \<open>Flush\<close> is
  \<open>flush\<close> on the buffer whose tail after the cursor has been replaced by zero bytes,
  whatever it held before.
\<close>

theorem C4_padded_flush:
  "wr_obj (w_w (snd (Flush (snd (Write (fresh_Writer c mem_sink) [1, 2, 3])))))
     = bytes (Encrypt c (block_of [1, 2, 3, 0, 0, 0, 0, 0])) \<and>
   fst (Flush (snd (Write (fresh_Writer c mem_sink) [1, 2, 3]))) = None \<and>
   fst (Write (fresh_Writer c mem_sink) [1, 2, 3]) = (3, None) \<and>
   CRC (snd (Flush (snd (Write (fresh_Writer c mem_sink) [1, 2, 3]))))
     = UpdateCRC ZeroCRC [1, 2, 3, 0, 0, 0, 0, 0] \<and>
   (0 < w_n w \<and> w_n w < Block \<and> \<not> w_NoZero w \<longrightarrow>
      Flush w = flush (w\<lparr>w_buf := block_of (take (w_n w) (bytes (w_buf w)))\<rparr>))"
proof -
  let ?w1 = "snd (Write (fresh_Writer c mem_sink) [1, 2, 3])"
  have blk: "store_at (store_at empty 0 [1, 2, 3]) 3 (bytes empty)
               = block_of [1, 2, 3, 0, 0, 0, 0, 0]"
    by (rule block_eqI) (simp add: bytes_store_at bytes_empty bytes_block_of Block_def replicate8)
  have w1: "Write (fresh_Writer c mem_sink) [1, 2, 3] =
              ((3, None), (fresh_Writer c mem_sink)\<lparr>w_buf := store_at empty 0 [1, 2, 3],
                 w_n := 3, w_off := 3\<rparr>)"
    by (simp add: Write.simps write_step_def Let_def copy_def Block_def fresh_Writer_def
          Reset_def ResetCRC_def)
  have fl: "Flush ?w1 = (None, ?w1\<lparr>w_crc := UpdateCRC ZeroCRC [1, 2, 3, 0, 0, 0, 0, 0],
              w_w := mem_sink\<lparr>wr_obj := bytes (Encrypt c (block_of [1, 2, 3, 0, 0, 0, 0, 0]))\<rparr>,
              w_off := 8, w_n := 0, w_buf := block_of [1, 2, 3, 0, 0, 0, 0, 0]\<rparr>)"
    unfolding w1
    by (simp add: Flush_def flush_def Let_def Block_def blk sink_write_def mem_sink_def
          mem_Write_def fresh_Writer_def Reset_def ResetCRC_def)
       (simp add: bytes_block_of Block_def)
  have gen: "0 < w_n w \<and> w_n w < Block \<and> \<not> w_NoZero w \<longrightarrow>
      Flush w = flush (w\<lparr>w_buf := block_of (take (w_n w) (bytes (w_buf w)))\<rparr>)"
    by (simp add: Flush_def store_at_zero_tail)
  show ?thesis
    using gen by (simp add: fl CRC_def) (simp add: w1)
qed

text \<open>
  Here the buffer still holds 9, 9 after the cursor, left by an earlier longer write; the
  flushed block carries zeros in their place.
\<close>

theorem C4_padded_flush_witness:
  "0 < w_n (snd (Write (snd (Flush (snd (Write (fresh_Writer (shift_cipher 1) mem_sink)
         [9, 9, 9, 9, 9])))) [1, 2, 3])) \<and>
   w_n (snd (Write (snd (Flush (snd (Write (fresh_Writer (shift_cipher 1) mem_sink)
         [9, 9, 9, 9, 9])))) [1, 2, 3])) < Block \<and>
   \<not> w_NoZero (snd (Write (snd (Flush (snd (Write (fresh_Writer (shift_cipher 1) mem_sink)
         [9, 9, 9, 9, 9])))) [1, 2, 3])) \<and>
   bytes (w_buf (snd (Write (snd (Flush (snd (Write (fresh_Writer (shift_cipher 1) mem_sink)
         [9, 9, 9, 9, 9])))) [1, 2, 3]))) = [1, 2, 3, 9, 9, 0, 0, 0] \<and>
   wr_obj (w_w (snd (Flush (snd (Write (snd (Flush (snd (Write
         (fresh_Writer (shift_cipher 1) mem_sink) [9, 9, 9, 9, 9])))) [1, 2, 3])))))
     = [10, 10, 10, 10, 10, 1, 1, 1, 2, 3, 4, 1, 1, 1, 1, 1]"
proof -
  let ?w = "snd (Write (snd (Flush (snd (Write (fresh_Writer (shift_cipher 1) mem_sink)
         [9, 9, 9, 9, 9])))) [1, 2, 3])"
  have h: "0 < w_n ?w \<and> w_n ?w < Block \<and> \<not> w_NoZero ?w"
    by (simp add: writer_eval)
  have b: "bytes (w_buf ?w) = [1, 2, 3, 9, 9, 0, 0, 0]"
    by (simp add: writer_eval)
  from C4_padded_flush [of "shift_cipher 1" ?w] h
  have "Flush ?w = flush (?w\<lparr>w_buf := block_of (take (w_n ?w) (bytes (w_buf ?w)))\<rparr>)"
    by blast
  then have "wr_obj (w_w (snd (Flush ?w))) =
               [10, 10, 10, 10, 10, 1, 1, 1, 2, 3, 4, 1, 1, 1, 1, 1]"
    by (simp add: b) (simp add: writer_eval)
  with h b show ?thesis
    by simp
qed

text \<open>
  C5 (confirmed). The reader needs a block (none loaded, or the loaded one exhausted)
  and \<open>io.ReadFull\<close> on the source comes back with an error \<open>e\<close>, having stored only the
  bytes \<open>got\<close>: then \<open>read\<close> and \<open>Read\<close> (for a non-empty request) fail with \<open>e\<close> and
  deliver no byte. The source has been asked once: its state is the one that single call
  left. The cursor is as before, and the bytes \<open>got\<close> sit undecrypted in the buffer.
  Over the in-memory source with fewer than \<open>Block\<close> bytes left, the error is
  \<open>io.EOF\<close> when nothing is left and \<open>io.ErrUnexpectedEOF\<close> otherwise.
\<close>

theorem C5_truncated_block:
  assumes "r_i r < 0 \<or> r_i r \<ge> int Block"
    and "rd_ReadFull (r_r r) (rd_obj (r_r r)) Block = ((got, Some e), obj)"
    and "0 < k"
  shows "read_step r k =
           (([], Some e), r\<lparr>r_r := (r_r r)\<lparr>rd_obj := obj\<rparr>, r_buf := store_at (r_buf r) 0 got\<rparr>) \<and>
         Read r k =
           (([], Some e), r\<lparr>r_r := (r_r r)\<lparr>rd_obj := obj\<rparr>, r_buf := store_at (r_buf r) 0 got\<rparr>) \<and>
         (length (ms_data s) - ms_pos s < Block \<longrightarrow>
            mem_ReadFull s Block =
              ((drop (ms_pos s) (ms_data s),
                Some (if length (ms_data s) \<le> ms_pos s then EOF else ErrUnexpectedEOF)),
               s\<lparr>ms_pos := max (ms_pos s) (length (ms_data s))\<rparr>))"
proof -
  have step: "read_step r k =
           (([], Some e), r\<lparr>r_r := (r_r r)\<lparr>rd_obj := obj\<rparr>, r_buf := store_at (r_buf r) 0 got\<rparr>)"
    using assms(1,2) by (simp add: read_step_def readNext_def Let_def)
  have loop: "Read r k =
           (([], Some e), r\<lparr>r_r := (r_r r)\<lparr>rd_obj := obj\<rparr>, r_buf := store_at (r_buf r) 0 got\<rparr>)"
    using assms(3) by (subst Read.simps) (simp add: step)
  have mem: "length (ms_data s) - ms_pos s < Block \<longrightarrow>
            mem_ReadFull s Block =
              ((drop (ms_pos s) (ms_data s),
                Some (if length (ms_data s) \<le> ms_pos s then EOF else ErrUnexpectedEOF)),
               s\<lparr>ms_pos := max (ms_pos s) (length (ms_data s))\<rparr>)"
    by (auto simp: mem_ReadFull_def Let_def Block_def max_def)
  from step loop mem show ?thesis
    by blast
qed

text \<open>A source of eleven bytes: the second block is three bytes short of a block.\<close>

theorem C5_truncated_block_witness:
  "fst (Read (fresh_Reader (shift_cipher 1)
          (mem_source [2, 3, 4, 5, 6, 7, 8, 9, 10, 11, 12])) 8)
     = ([1, 2, 3, 4, 5, 6, 7, 8], None) \<and>
   fst (Read (snd (Read (fresh_Reader (shift_cipher 1)
          (mem_source [2, 3, 4, 5, 6, 7, 8, 9, 10, 11, 12])) 8)) 2)
     = ([], Some ErrUnexpectedEOF) \<and>
   ms_pos (rd_obj (r_r (snd (Read (snd (Read (fresh_Reader (shift_cipher 1)
          (mem_source [2, 3, 4, 5, 6, 7, 8, 9, 10, 11, 12])) 8)) 2)))) = 11"
proof -
  let ?r = "snd (Read (fresh_Reader (shift_cipher 1)
          (mem_source [2, 3, 4, 5, 6, 7, 8, 9, 10, 11, 12])) 8)"
  have h1: "r_i ?r < 0 \<or> r_i ?r \<ge> int Block"
    by (simp add: reader_eval)
  have h2: "rd_ReadFull (r_r ?r) (rd_obj (r_r ?r)) Block
              = (([10, 11, 12], Some ErrUnexpectedEOF),
                 \<lparr>ms_data = [2, 3, 4, 5, 6, 7, 8, 9, 10, 11, 12], ms_pos = 11\<rparr>)"
    by (simp add: reader_eval)
  have h3: "(0::nat) < 2"
    by simp
  have first: "fst (Read (fresh_Reader (shift_cipher 1)
          (mem_source [2, 3, 4, 5, 6, 7, 8, 9, 10, 11, 12])) 8)
     = ([1, 2, 3, 4, 5, 6, 7, 8], None)"
    by (simp add: reader_eval)
  from C5_truncated_block [OF h1 h2 h3] first show ?thesis
    by simp
qed

text \<open>
  C6 (confirmed). The source holds whole blocks and can seek; \<open>r\<close> is any reader state
  over it. For a byte offset \<open>a\<close> inside the data and \<open>k\<close> bytes that end inside it,
  \<open>Seek\<close> to \<open>a\<close> from the start returns \<open>a\<close>, and reading \<open>k\<close> bytes then gives what
  reading \<open>a + k\<close> bytes from the rewound source gives after its first \<open>a\<close> bytes are
  dropped; neither read fails. When \<open>a\<close> is not on a block boundary, \<open>Seek\<close> leaves the
  source just after the block holding \<open>a\<close>, that block decrypted in the buffer, and the
  cursor at \<open>a mod Block\<close>. Offsets are \<open>int64\<close>: \<open>a\<close> is below \<open>2 ^ 63\<close>, as every
  offset that is not negative is.
\<close>

theorem C6_seek_consistency:
  assumes "over_mem r data co"
    and "r_s r = Some mem_Seek"
    and "length data mod Block = 0"
    and "a < 2 ^ 63"
    and "a < length data"
    and "a + k \<le> length data"
  shows "fst (Seek r (of_nat a) SeekStart) = (of_nat a, None) \<and>
         fst (Read (Reset_r r ((r_r r)\<lparr>rd_obj := (rd_obj (r_r r))\<lparr>ms_pos := 0\<rparr>\<rparr>)) (a + k))
           = (take (a + k) (decrypt_stream co data), None) \<and>
         fst (Read (snd (Seek r (of_nat a) SeekStart)) k)
           = (drop a (fst (fst (Read
                (Reset_r r ((r_r r)\<lparr>rd_obj := (rd_obj (r_r r))\<lparr>ms_pos := 0\<rparr>\<rparr>)) (a + k)))),
              None) \<and>
         (a mod Block \<noteq> 0 \<longrightarrow>
            r_i (snd (Seek r (of_nat a) SeekStart)) = int (a mod Block) \<and>
            ms_pos (rd_obj (r_r (snd (Seek r (of_nat a) SeekStart)))) = a - a mod Block + Block \<and>
            r_buf (snd (Seek r (of_nat a) SeekStart))
              = dec_block co (block_of (take Block (drop (a - a mod Block) data))))"
proof -
  let ?start = "Reset_r r ((r_r r)\<lparr>rd_obj := (rd_obj (r_r r))\<lparr>ms_pos := 0\<rparr>\<rparr>)"
  let ?plain = "decrypt_stream co data"
  note sk = Seek_mem [OF assms(1-5)]
  from assms(3) have "Block * (length data div Block) = length data"
    by (simp add: mod_eq_0_iff_dvd)
  then have len: "length ?plain = length data"
    by (simp add: length_decrypt_stream)
  have over0: "over_mem ?start data co" and pend0: "pending ?start = ?plain"
    using assms(1) by (simp_all add: Reset_r_def over_mem_def pending_def)
  from assms(6) len pend0 have "a + k \<le> length (pending ?start)"
    by simp
  from Read_pending [OF over0 this] pend0
  have seq: "fst (Read ?start (a + k)) = (take (a + k) ?plain, None)"
    by simp
  from sk assms(6) len have "k \<le> length (pending (snd (Seek r (of_nat a) SeekStart)))"
    by simp
  moreover from sk have "over_mem (snd (Seek r (of_nat a) SeekStart)) data co"
    by blast
  ultimately have "fst (Read (snd (Seek r (of_nat a) SeekStart)) k)
                     = (take k (pending (snd (Seek r (of_nat a) SeekStart))), None)"
    using Read_pending by blast
  with sk have "fst (Read (snd (Seek r (of_nat a) SeekStart)) k) = (take k (drop a ?plain), None)"
    by simp
  moreover have "take k (drop a ?plain) = drop a (take (a + k) ?plain)"
    by (simp add: drop_take)
  ultimately show ?thesis
    using sk seq by simp
qed

text \<open>
  Sixteen bytes that decrypt to 1, ..., 16: after seeking to offset 11 the next four
  bytes are 12, 13, 14, 15.
\<close>

theorem C6_seek_consistency_witness:
  "over_mem (fresh_Reader (shift_cipher 1)
       (mem_source [2, 3, 4, 5, 6, 7, 8, 9, 10, 11, 12, 13, 14, 15, 16, 17]))
     [2, 3, 4, 5, 6, 7, 8, 9, 10, 11, 12, 13, 14, 15, 16, 17] (Some (shift_cipher 1)) \<and>
   r_s (fresh_Reader (shift_cipher 1)
       (mem_source [2, 3, 4, 5, 6, 7, 8, 9, 10, 11, 12, 13, 14, 15, 16, 17])) = Some mem_Seek \<and>
   length [2, 3, 4, 5, 6, 7, 8, 9, 10, 11, 12, 13, 14, 15, 16, 17 :: byte] mod Block = 0 \<and>
   (11 :: nat) < 2 ^ 63 \<and>
   fst (Seek (fresh_Reader (shift_cipher 1)
       (mem_source [2, 3, 4, 5, 6, 7, 8, 9, 10, 11, 12, 13, 14, 15, 16, 17])) 11 SeekStart)
     = (11, None) \<and>
   fst (Read (snd (Seek (fresh_Reader (shift_cipher 1)
       (mem_source [2, 3, 4, 5, 6, 7, 8, 9, 10, 11, 12, 13, 14, 15, 16, 17])) 11 SeekStart)) 4)
     = ([12, 13, 14, 15], None) \<and>
   r_i (snd (Seek (fresh_Reader (shift_cipher 1)
       (mem_source [2, 3, 4, 5, 6, 7, 8, 9, 10, 11, 12, 13, 14, 15, 16, 17])) 11 SeekStart)) = 3"
proof -
  let ?data = "[2, 3, 4, 5, 6, 7, 8, 9, 10, 11, 12, 13, 14, 15, 16, 17] :: byte list"
  let ?r = "fresh_Reader (shift_cipher 1) (mem_source ?data)"
  have h1: "over_mem ?r ?data (Some (shift_cipher 1))"
    by (simp add: over_mem_def fresh_Reader_def Reset_r_def mem_source_def)
  have h2: "r_s ?r = Some mem_Seek"
    by (simp add: fresh_Reader_def Reset_r_def mem_source_def)
  have h3: "length ?data mod Block = 0"
    by (simp add: Block_def)
  have hs: "(11 :: nat) < 2 ^ 63"
    by simp
  have h4: "11 < length ?data"
    by simp
  have h5: "11 + 4 \<le> length ?data"
    by simp
  have seq: "fst (fst (Read (Reset_r ?r ((r_r ?r)\<lparr>rd_obj := (rd_obj (r_r ?r))\<lparr>ms_pos := 0\<rparr>\<rparr>))
               (11 + 4))) = [1, 2, 3, 4, 5, 6, 7, 8, 9, 10, 11, 12, 13, 14, 15]"
    by (simp add: reader_eval)
  have m: "(11::nat) mod Block = 3"
    by (simp add: Block_def)
  note c6 = C6_seek_consistency [OF h1 h2 h3 hs h4 h5]
  from c6 have "fst (Seek ?r (of_nat 11) SeekStart) = (of_nat 11, None)"
    by blast
  moreover from c6 seq have "fst (Read (snd (Seek ?r (of_nat 11) SeekStart)) 4)
      = (drop 11 [1, 2, 3, 4, 5, 6, 7, 8, 9, 10, 11, 12, 13, 14, 15], None)"
    by simp
  moreover from c6 m have "r_i (snd (Seek ?r (of_nat 11) SeekStart)) = int 3"
    by simp
  ultimately show ?thesis
    using h1 h2 h3 hs by simp
qed

text \<open>
  C7 (corrected). The claim: \<open>Align\<close> does nothing when the buffered count is a
  multiple of the block size, and otherwise forces a block refill that discards the
  partly consumed block. The first half holds. The second half holds when the source
  delivers a full block; when it does not, \<open>readNext\<close> returns the error before it
  touches the cursor, and the unread bytes of the old block stay buffered. Amended:
  when the buffered count is a multiple of the block size (no block loaded, block
  exhausted, or cursor at the start of a loaded block), \<open>Align\<close> returns without error
  and leaves the whole reader, its source included, as it was. Otherwise it calls
  \<open>io.ReadFull\<close> on the source once. If that returns a full block, \<open>Align\<close> returns
  without error, the buffer holds that block, decrypted when there is a cipher, the cursor
  is 0 and a whole block is buffered; over the in-memory source what is pending is then
  exactly the decryption of the source from its old position on, so the unread bytes of
  the old block are gone. If it returns an error, \<open>Align\<close> returns that error, the
  bytes the source delivered overwrite the start of the buffer undecrypted, and the
  cursor and the buffered count stay as they were.
\<close>

theorem C7_Align:
  "(Buffered r smod int Block = 0 \<longrightarrow> Align r = (None, r)) \<and>
   (Buffered r smod int Block = 0 \<longleftrightarrow> r_i r \<le> 0 \<or> r_i r \<ge> int Block) \<and>
   (r_i r < 0 \<or> r_i r \<ge> int Block \<longrightarrow> Buffered r = 0) \<and>
   (Buffered r smod int Block \<noteq> 0 \<and>
    rd_ReadFull (r_r r) (rd_obj (r_r r)) Block = ((got, None), obj) \<longrightarrow>
      Align r =
        (None, r\<lparr>r_r := (r_r r)\<lparr>rd_obj := obj\<rparr>,
                 r_buf := dec_block (r_c r) (store_at (r_buf r) 0 got), r_i := 0\<rparr>) \<and>
      Buffered (snd (Align r)) = int Block) \<and>
   (Buffered r smod int Block \<noteq> 0 \<and>
    rd_ReadFull (r_r r) (rd_obj (r_r r)) Block = ((got, Some e), obj) \<longrightarrow>
      Align r =
        (Some e, r\<lparr>r_r := (r_r r)\<lparr>rd_obj := obj\<rparr>, r_buf := store_at (r_buf r) 0 got\<rparr>) \<and>
      r_i (snd (Align r)) = r_i r \<and>
      Buffered (snd (Align r)) = Buffered r) \<and>
   (Buffered m smod int Block \<noteq> 0 \<and> over_mem m data co \<and>
    Block \<le> length (drop (ms_pos (rd_obj (r_r m))) data) \<longrightarrow>
      fst (Align m) = None \<and>
      r_i (snd (Align m)) = 0 \<and>
      r_buf (snd (Align m))
        = dec_block co (block_of (take Block (drop (ms_pos (rd_obj (r_r m))) data))) \<and>
      ms_pos (rd_obj (r_r (snd (Align m)))) = ms_pos (rd_obj (r_r m)) + Block \<and>
      pending (snd (Align m)) = decrypt_stream co (drop (ms_pos (rd_obj (r_r m))) data))"
proof -
  have aligned: "Buffered r smod int Block = 0 \<longleftrightarrow> r_i r \<le> 0 \<or> r_i r \<ge> int Block"
  proof (cases "r_i r < 0 \<or> r_i r \<ge> int Block")
    case True
    then show ?thesis by (auto simp: Buffered_def)
  next
    case False
    then have b: "Buffered r = 8 - r_i r" and "0 \<le> r_i r" and "r_i r < 8"
      by (auto simp: Buffered_def Block_def)
    then have "(8 - r_i r) smod 8 = (8 - r_i r) mod 8"
      by (simp add: smod_int_alt_def sgn_if)
    moreover from \<open>0 \<le> r_i r\<close> \<open>r_i r < 8\<close> have "(8 - r_i r) mod 8 = 0 \<longleftrightarrow> r_i r = 0"
      by presburger
    ultimately have "(8 - r_i r) smod 8 = 0 \<longleftrightarrow> r_i r = 0"
      by simp
    with b False show ?thesis
      by (auto simp: Block_def)
  qed
  have noop: "Buffered r smod int Block = 0 \<longrightarrow> Align r = (None, r)"
    by (simp add: Align_def)
  have empty: "r_i r < 0 \<or> r_i r \<ge> int Block \<longrightarrow> Buffered r = 0"
    by (auto simp: Buffered_def)
  have refill: "Buffered r smod int Block \<noteq> 0 \<and>
      rd_ReadFull (r_r r) (rd_obj (r_r r)) Block = ((got, None), obj) \<longrightarrow>
        Align r =
          (None, r\<lparr>r_r := (r_r r)\<lparr>rd_obj := obj\<rparr>,
                   r_buf := dec_block (r_c r) (store_at (r_buf r) 0 got), r_i := 0\<rparr>) \<and>
        Buffered (snd (Align r)) = int Block"
    by (cases "r_c r")
       (simp_all add: Align_def readNext_def Let_def dec_block_def Buffered_def Block_def)
  have failed: "Buffered r smod int Block \<noteq> 0 \<and>
      rd_ReadFull (r_r r) (rd_obj (r_r r)) Block = ((got, Some e), obj) \<longrightarrow>
        Align r =
          (Some e, r\<lparr>r_r := (r_r r)\<lparr>rd_obj := obj\<rparr>, r_buf := store_at (r_buf r) 0 got\<rparr>) \<and>
        r_i (snd (Align r)) = r_i r \<and>
        Buffered (snd (Align r)) = Buffered r"
    by (simp add: Align_def readNext_def Let_def Buffered_def)
  have mem: "Buffered m smod int Block \<noteq> 0 \<and> over_mem m data co \<and>
      Block \<le> length (drop (ms_pos (rd_obj (r_r m))) data) \<longrightarrow>
        fst (Align m) = None \<and>
        r_i (snd (Align m)) = 0 \<and>
        r_buf (snd (Align m))
          = dec_block co (block_of (take Block (drop (ms_pos (rd_obj (r_r m))) data))) \<and>
        ms_pos (rd_obj (r_r (snd (Align m)))) = ms_pos (rd_obj (r_r m)) + Block \<and>
        pending (snd (Align m)) = decrypt_stream co (drop (ms_pos (rd_obj (r_r m))) data)"
  proof (intro impI, elim conjE)
    assume mis: "Buffered m smod int Block \<noteq> 0" and over: "over_mem m data co"
      and room: "Block \<le> length (drop (ms_pos (rd_obj (r_r m))) data)"
    let ?rest = "drop (ms_pos (rd_obj (r_r m))) data"
    from mis have al: "Align m = readNext m"
      by (simp add: Align_def)
    note nx = readNext_mem [OF over room]
    have "decrypt_stream co ?rest =
            bytes (dec_block co (block_of (take Block ?rest)))
            @ decrypt_stream co (drop Block ?rest)"
      using room by (rule decrypt_stream_long)
    with over have "pending (snd (readNext m)) = decrypt_stream co ?rest"
      by (simp add: nx pending_def over_mem_def add.commute Block_def)
    then show "fst (Align m) = None \<and>
        r_i (snd (Align m)) = 0 \<and>
        r_buf (snd (Align m)) = dec_block co (block_of (take Block ?rest)) \<and>
        ms_pos (rd_obj (r_r (snd (Align m)))) = ms_pos (rd_obj (r_r m)) + Block \<and>
        pending (snd (Align m)) = decrypt_stream co ?rest"
      by (simp add: al nx)
  qed
  from noop aligned empty refill failed mem show ?thesis
    by (intro conjI)
qed

text \<open>
  A reader over sixteen bytes that decrypt to 0, ..., 15: before any read no block is
  loaded and \<open>Align\<close> changes nothing; after three bytes have been read five are
  buffered, and \<open>Align\<close> loads the second block, so that the next bytes are 8 and 9.
\<close>

theorem C7_Align_witness:
  "Buffered (fresh_Reader (shift_cipher 1)
       (mem_source [1, 2, 3, 4, 5, 6, 7, 8, 9, 10, 11, 12, 13, 14, 15, 16])) smod int Block = 0 \<and>
   Align (fresh_Reader (shift_cipher 1)
       (mem_source [1, 2, 3, 4, 5, 6, 7, 8, 9, 10, 11, 12, 13, 14, 15, 16]))
     = (None, fresh_Reader (shift_cipher 1)
       (mem_source [1, 2, 3, 4, 5, 6, 7, 8, 9, 10, 11, 12, 13, 14, 15, 16])) \<and>
   Buffered (snd (Read (fresh_Reader (shift_cipher 1)
       (mem_source [1, 2, 3, 4, 5, 6, 7, 8, 9, 10, 11, 12, 13, 14, 15, 16])) 3)) smod int Block
     \<noteq> 0 \<and>
   fst (Align (snd (Read (fresh_Reader (shift_cipher 1)
       (mem_source [1, 2, 3, 4, 5, 6, 7, 8, 9, 10, 11, 12, 13, 14, 15, 16])) 3))) = None \<and>
   Buffered (snd (Align (snd (Read (fresh_Reader (shift_cipher 1)
       (mem_source [1, 2, 3, 4, 5, 6, 7, 8, 9, 10, 11, 12, 13, 14, 15, 16])) 3)))) = 8 \<and>
   fst (Read (snd (Align (snd (Read (fresh_Reader (shift_cipher 1)
       (mem_source [1, 2, 3, 4, 5, 6, 7, 8, 9, 10, 11, 12, 13, 14, 15, 16])) 3)))) 2)
     = ([8, 9], None)"
proof -
  let ?data = "[1, 2, 3, 4, 5, 6, 7, 8, 9, 10, 11, 12, 13, 14, 15, 16] :: byte list"
  let ?r = "fresh_Reader (shift_cipher 1) (mem_source ?data)"
  let ?r1 = "snd (Read ?r 3)"
  have h0: "Buffered ?r smod int Block = 0"
    by (simp add: reader_eval)
  have h1: "Buffered ?r1 smod int Block \<noteq> 0"
    by (simp add: reader_eval smod_int_alt_def)
  have h2: "rd_ReadFull (r_r ?r1) (rd_obj (r_r ?r1)) Block
              = (([9, 10, 11, 12, 13, 14, 15, 16], None), \<lparr>ms_data = ?data, ms_pos = 16\<rparr>)"
    by (simp add: reader_eval)
  from C7_Align [where r = ?r] h0 have a0: "Align ?r = (None, ?r)"
    by blast
  from C7_Align [where r = ?r1 and got = "[9, 10, 11, 12, 13, 14, 15, 16]"
      and obj = "\<lparr>ms_data = ?data, ms_pos = 16\<rparr>"] h1 h2
  have a1: "Align ?r1 =
        (None, ?r1\<lparr>r_r := (r_r ?r1)\<lparr>rd_obj := \<lparr>ms_data = ?data, ms_pos = 16\<rparr>\<rparr>,
                 r_buf := dec_block (r_c ?r1)
                   (store_at (r_buf ?r1) 0 [9, 10, 11, 12, 13, 14, 15, 16]), r_i := 0\<rparr>)"
    and b1: "Buffered (snd (Align ?r1)) = int Block"
    by blast+
  from a1 have none: "fst (Align ?r1) = None"
    by simp
  from a1 have rd: "fst (Read (snd (Align ?r1)) 2) = ([8, 9], None)"
    by (simp add: reader_eval dec_block_def)
  from h0 a0 h1 none b1 rd show ?thesis
    by (simp add: Block_def)
qed

text \<open>
  The claim as stated fails when the source cannot deliver a block. The source holds
  eleven bytes; three bytes of the first block have been read and five are buffered.
  \<open>Align\<close> returns \<open>io.ErrUnexpectedEOF\<close>, the cursor is still 3, five bytes are still
  buffered, and the next read delivers them: the partly consumed block was not discarded.
\<close>

theorem C7_refill_counterexample:
  "Buffered (snd (Read (fresh_Reader (shift_cipher 1)
       (mem_source [2, 3, 4, 5, 6, 7, 8, 9, 10, 11, 12])) 3)) smod int Block \<noteq> 0 \<and>
   fst (Align (snd (Read (fresh_Reader (shift_cipher 1)
       (mem_source [2, 3, 4, 5, 6, 7, 8, 9, 10, 11, 12])) 3))) = Some ErrUnexpectedEOF \<and>
   r_i (snd (Align (snd (Read (fresh_Reader (shift_cipher 1)
       (mem_source [2, 3, 4, 5, 6, 7, 8, 9, 10, 11, 12])) 3)))) = 3 \<and>
   Buffered (snd (Align (snd (Read (fresh_Reader (shift_cipher 1)
       (mem_source [2, 3, 4, 5, 6, 7, 8, 9, 10, 11, 12])) 3)))) = 5 \<and>
   fst (Read (snd (Align (snd (Read (fresh_Reader (shift_cipher 1)
       (mem_source [2, 3, 4, 5, 6, 7, 8, 9, 10, 11, 12])) 3)))) 5)
     = ([4, 5, 6, 7, 8], None)"
  by (simp add: reader_eval smod_int_alt_def)

text \<open>
  C8 (confirmed). \<open>Reset\<close> records whether the sink has \<open>WriteAt\<close> and whether the source
  has \<open>Seek\<close>. Without \<open>WriteAt\<close>, \<open>WriteBlockAt\<close> returns its error at once and the
  writer is unchanged; without \<open>Seek\<close>, \<open>Seek\<close> returns offset 0 and its error at once and
  the reader is unchanged. Both errors are plain \<open>errors.New\<close> values.
\<close>

theorem C8_missing_capability:
  "w_at (Reset w d) = wr_WriteAt d \<and>
   r_s (Reset_r r s) = rd_Seek s \<and>
   (w_at w = None \<longrightarrow>
      WriteBlockAt w buf off
        = (Some (ErrorString ''WriteAt is not supported by the underlying writer''), w)) \<and>
   (r_s r = None \<longrightarrow>
      Seek r pos whence = ((0, Some (ErrorString ''reader cannot seek'')), r))"
  by (simp add: Reset_def ResetCRC_def Reset_r_def WriteBlockAt_def Seek_def)

theorem C8_missing_capability_witness:
  "w_at (snd (Write (fresh_Writer (shift_cipher 1) mem_sink) [1, 2, 3])) = None \<and>
   WriteBlockAt (snd (Write (fresh_Writer (shift_cipher 1) mem_sink) [1, 2, 3])) empty 0
     = (Some (ErrorString ''WriteAt is not supported by the underlying writer''),
        snd (Write (fresh_Writer (shift_cipher 1) mem_sink) [1, 2, 3])) \<and>
   r_s (fresh_Reader (shift_cipher 1) (mem_source_noseek [1, 2, 3, 4, 5, 6, 7, 8])) = None \<and>
   Seek (fresh_Reader (shift_cipher 1) (mem_source_noseek [1, 2, 3, 4, 5, 6, 7, 8])) 4 SeekStart
     = ((0, Some (ErrorString ''reader cannot seek'')),
        fresh_Reader (shift_cipher 1) (mem_source_noseek [1, 2, 3, 4, 5, 6, 7, 8]))"
proof -
  let ?w = "snd (Write (fresh_Writer (shift_cipher 1) mem_sink) [1, 2, 3])"
  let ?r = "fresh_Reader (shift_cipher 1) (mem_source_noseek [1, 2, 3, 4, 5, 6, 7, 8])"
  have hw: "w_at ?w = None"
    by (simp add: writer_eval)
  have hr: "r_s ?r = None"
    by (simp add: reader_eval)
  from C8_missing_capability [where w = ?w and buf = empty and off = 0 and r = ?r and pos = 4
      and whence = SeekStart] hw hr show ?thesis
    by blast
qed

text \<open>
  C9 (confirmed). Both variants are built with the same cipher over the same sink and
  given the same \<open>NoZero\<close> setting; the same calls are then made on both. Every call
  reports the same count, the same error and the same \<open>Written()\<close>, and at the end the
  sinks are equal: the variants wrote the same bytes. More generally the second variant,
  started from the shared fields of any state of the first, stays at the shared fields
  of the first.
\<close>

theorem C9_writers_agree:
  "fst (do_calls_old ((fresh_Writer_old c d)\<lparr>o_NoZero := z\<rparr>) xs)
     = fst (do_calls ((fresh_Writer c d)\<lparr>w_NoZero := z\<rparr>) xs) \<and>
   o_w (snd (do_calls_old ((fresh_Writer_old c d)\<lparr>o_NoZero := z\<rparr>) xs))
     = w_w (snd (do_calls ((fresh_Writer c d)\<lparr>w_NoZero := z\<rparr>) xs)) \<and>
   Written_old (snd (do_calls_old ((fresh_Writer_old c d)\<lparr>o_NoZero := z\<rparr>) xs))
     = Written (snd (do_calls ((fresh_Writer c d)\<lparr>w_NoZero := z\<rparr>) xs)) \<and>
   do_calls_old (shared w) xs = (fst (do_calls w xs), shared (snd (do_calls w xs))) \<and>
   NewWriter_old NewCipher d key = map_sum id shared (NewWriter NewCipher d key)"
proof -
  have "do_calls_old ((fresh_Writer_old c d)\<lparr>o_NoZero := z\<rparr>) xs
          = (fst (do_calls ((fresh_Writer c d)\<lparr>w_NoZero := z\<rparr>) xs),
             shared (snd (do_calls ((fresh_Writer c d)\<lparr>w_NoZero := z\<rparr>) xs)))"
    using do_calls_shared [of "(fresh_Writer c d)\<lparr>w_NoZero := z\<rparr>" xs]
    by (simp only: shared_fresh)
  moreover have "NewWriter_old NewCipher d key = map_sum id shared (NewWriter NewCipher d key)"
    using shared_fresh [where z = False]
    by (simp add: NewWriter_old_def NewWriter_def fresh_Writer_def fresh_Writer_old_def
          Reset_def ResetCRC_def Reset_old_def shared_def split: sum.splits)
  ultimately show ?thesis
    by (simp add: do_calls_shared Written_def Written_old_def shared_simps)
qed

text \<open>
  C10 (confirmed). When the sink's \<open>Write\<close> fails with \<open>e\<close> inside \<open>flush\<close>, \<open>flush\<close> still
  returns the writer with the checksum updated over the whole plaintext block, the offset
  advanced by \<open>Block - n\<close>, the cursor at 0, and the sink as the failed write left it,
  together with \<open>e\<close>. In \<open>Write\<close>, when the input fills the block and the sink refuses
  the block's ciphertext with \<open>e\<close>, the call returns count 0 and \<open>e\<close>, although
  \<open>Block - n\<close> bytes of the input went into the buffer: the checksum covers the block, the
  offset has advanced by these bytes, the cursor is 0 and the plaintext is not kept for a
  retry. When the sink accepts the block, the step counts its \<open>Block - n\<close> bytes and the
  rest of the input is written from the state the step leaves. So over a sink with room
  for \<open>j\<close> more blocks and not for \<open>j + 1\<close>, a \<open>Write\<close> of at least \<open>j + 1\<close> blocks on an
  empty buffer returns count \<open>j * Block\<close> and the error, the offset has advanced by
  \<open>(j + 1) * Block\<close>, the cursor is 0 and the sink has grown by \<open>j\<close> blocks. In general
  a \<open>Write\<close> that ends with an error returns as count only the bytes of the steps that
  succeeded: the offset has advanced by that count and by the bytes of the failing step
  (\<open>Block - n\<close> when it is the first step, \<open>Block\<close> afterwards), all of which had been
  taken from the input, and the cursor is 0.
\<close>

theorem C10_failed_flush:
  "(fst (sink_write (w_w w) (bytes (Encrypt (w_c w) (w_buf w)))) = Some e \<longrightarrow>
      flush w =
        (Some e,
         w\<lparr>w_crc := UpdateCRC (w_crc w) (bytes (w_buf w)),
           w_w := snd (sink_write (w_w w) (bytes (Encrypt (w_c w) (w_buf w)))),
           w_off := w_off w + of_int (int Block - int (w_n w)),
           w_n := 0\<rparr>)) \<and>
   (w_n v < Block \<and> Write v p = ((t, Some e'), v') \<longrightarrow>
      w_n v' = 0 \<and>
      w_off v' = w_off v + of_nat t + of_nat (if t = 0 then Block - w_n v else Block) \<and>
      t + (if t = 0 then Block - w_n v else Block) \<le> length p) \<and>
   (w_n u < Block \<and> Block - w_n u \<le> length q \<and>
    fst (sink_write (w_w u) (bytes (Encrypt (w_c u) (store_at (w_buf u) (w_n u) q)))) = Some f
      \<longrightarrow>
      Write u q =
        ((0, Some f),
         u\<lparr>w_buf := store_at (w_buf u) (w_n u) q,
           w_crc := UpdateCRC (w_crc u) (bytes (store_at (w_buf u) (w_n u) q)),
           w_w := snd (sink_write (w_w u)
                    (bytes (Encrypt (w_c u) (store_at (w_buf u) (w_n u) q)))),
           w_off := w_off u + of_nat (Block - w_n u),
           w_n := 0\<rparr>)) \<and>
   (w_n a < Block \<and> Block - w_n a \<le> length s \<and>
    fst (sink_write (w_w a) (bytes (Encrypt (w_c a) (store_at (w_buf a) (w_n a) s)))) = None
      \<longrightarrow>
      Write a s =
        (case Write
                (a\<lparr>w_buf := (if w_NoZero a
                              then store_at (store_at (w_buf a) (w_n a) s) 0 (bytes empty)
                              else store_at (w_buf a) (w_n a) s),
                   w_crc := UpdateCRC (w_crc a) (bytes (store_at (w_buf a) (w_n a) s)),
                   w_w := snd (sink_write (w_w a)
                            (bytes (Encrypt (w_c a) (store_at (w_buf a) (w_n a) s)))),
                   w_off := w_off a + of_nat (Block - w_n a),
                   w_n := 0\<rparr>)
                (drop (Block - w_n a) s) of
           ((m, err), a2) \<Rightarrow> ((Block - w_n a + m, err), a2))) \<and>
   (w_n x = 0 \<and> wr_Write (w_w x) = bounded_Write cap \<and>
    length (wr_obj (w_w x)) + Block * j \<le> cap \<and>
    cap < length (wr_obj (w_w x)) + Block * Suc j \<and>
    Block * Suc j \<le> length y \<longrightarrow>
      fst (Write x y) = (Block * j, Some (ErrorString ''no space left'')) \<and>
      w_n (snd (Write x y)) = 0 \<and>
      w_off (snd (Write x y)) = w_off x + of_nat (Block * Suc j) \<and>
      length (wr_obj (w_w (snd (Write x y)))) = length (wr_obj (w_w x)) + Block * j)"
proof -
  have c1: "fst (sink_write (w_w w) (bytes (Encrypt (w_c w) (w_buf w)))) = Some e \<longrightarrow>
      flush w =
        (Some e,
         w\<lparr>w_crc := UpdateCRC (w_crc w) (bytes (w_buf w)),
           w_w := snd (sink_write (w_w w) (bytes (Encrypt (w_c w) (w_buf w)))),
           w_off := w_off w + of_int (int Block - int (w_n w)),
           w_n := 0\<rparr>)"
    by (simp add: flush_def Let_def split: prod.splits)
  note c2 = Write_error [of v p t e' v']
  note c3 = Write_sink_fails [of u q f]
  note c4 = Write_sink_accepts [of a s]
  note c5 = Write_bounded [of x cap j y]
  from c1 c2 c3 c4 c5 show ?thesis
    by (intro conjI impI; (elim conjE)?; blast)
qed

text \<open>
  A sink with room for one block. Five bytes are pending when eleven more are written:
  the first step fills and flushes the first block, the second block fails. With an empty
  buffer sixteen bytes are written: the first block is accepted, the second is refused.
\<close>

theorem C10_failed_flush_witness:
  "fst (Write (snd (Write (fresh_Writer (shift_cipher 1) (bounded_sink 8)) [1, 2, 3, 4, 5]))
          [6, 7, 8, 9, 10, 11, 12, 13, 14, 15, 16])
     = (3, Some (ErrorString ''no space left'')) \<and>
   w_n (snd (Write (snd (Write (fresh_Writer (shift_cipher 1) (bounded_sink 8)) [1, 2, 3, 4, 5]))
          [6, 7, 8, 9, 10, 11, 12, 13, 14, 15, 16])) = 0 \<and>
   w_off (snd (Write (snd (Write (fresh_Writer (shift_cipher 1) (bounded_sink 8)) [1, 2, 3, 4, 5]))
          [6, 7, 8, 9, 10, 11, 12, 13, 14, 15, 16])) = 16 \<and>
   wr_obj (w_w (snd (Write (snd (Write (fresh_Writer (shift_cipher 1) (bounded_sink 8))
          [1, 2, 3, 4, 5])) [6, 7, 8, 9, 10, 11, 12, 13, 14, 15, 16])))
     = [2, 3, 4, 5, 6, 7, 8, 9] \<and>
   fst (flush (snd (Write (fresh_Writer (shift_cipher 1) (bounded_sink 8))
          [1, 2, 3, 4, 5, 6, 7, 8, 9, 10, 11]))) = Some (ErrorString ''no space left'') \<and>
   w_off (snd (flush (snd (Write (fresh_Writer (shift_cipher 1) (bounded_sink 8))
          [1, 2, 3, 4, 5, 6, 7, 8, 9, 10, 11])))) = 16 \<and>
   fst (Write (fresh_Writer (shift_cipher 1) (bounded_sink 8))
          [1, 2, 3, 4, 5, 6, 7, 8, 9, 10, 11, 12, 13, 14, 15, 16])
     = (8, Some (ErrorString ''no space left'')) \<and>
   w_off (snd (Write (fresh_Writer (shift_cipher 1) (bounded_sink 8))
          [1, 2, 3, 4, 5, 6, 7, 8, 9, 10, 11, 12, 13, 14, 15, 16])) = 16 \<and>
   fst (Write (snd (Write (fresh_Writer (shift_cipher 1) (bounded_sink 8)) [1, 2, 3, 4, 5]))
          [6, 7, 8]) = (3, None) \<and>
   fst (Write (snd (Write (fresh_Writer (shift_cipher 1) (bounded_sink 8))
          [1, 2, 3, 4, 5, 6, 7, 8])) [9, 10, 11, 12, 13, 14, 15, 16])
     = (0, Some (ErrorString ''no space left'')) \<and>
   w_off (snd (Write (snd (Write (fresh_Writer (shift_cipher 1) (bounded_sink 8))
          [1, 2, 3, 4, 5, 6, 7, 8])) [9, 10, 11, 12, 13, 14, 15, 16])) = 16"
proof -
  let ?z = "fresh_Writer (shift_cipher 1) (bounded_sink 8) :: byte list Writer"
  let ?v = "snd (Write ?z [1, 2, 3, 4, 5])"
  let ?p = "[6, 7, 8, 9, 10, 11, 12, 13, 14, 15, 16] :: byte list"
  let ?w = "snd (Write ?z [1, 2, 3, 4, 5, 6, 7, 8, 9, 10, 11])"
  let ?u = "snd (Write ?z [1, 2, 3, 4, 5, 6, 7, 8])"
  let ?q = "[9, 10, 11, 12, 13, 14, 15, 16] :: byte list"
  let ?y = "[1, 2, 3, 4, 5, 6, 7, 8, 9, 10, 11, 12, 13, 14, 15, 16] :: byte list"
  let ?s = "[6, 7, 8] :: byte list"
  let ?e = "ErrorString ''no space left''"
  note ev = writer_eval bounded_sink_def bounded_Write_def
  have hv: "w_n ?v < Block"
    by (simp add: ev)
  have res: "fst (Write ?v ?p) = (3, Some ?e)"
    by (simp add: ev)
  then have run: "Write ?v ?p = ((3, Some ?e), snd (Write ?v ?p))"
    by (metis prod.collapse)
  have sink: "wr_obj (w_w (snd (Write ?v ?p))) = [2, 3, 4, 5, 6, 7, 8, 9]"
    by (simp add: ev)
  have hw: "fst (sink_write (w_w ?w) (bytes (Encrypt (w_c ?w) (w_buf ?w)))) = Some ?e"
    by (simp add: ev)
  have offw: "w_off ?w = 11" and nw: "w_n ?w = 3"
    by (simp_all add: ev)
  have hu: "w_n ?u < Block" "Block - w_n ?u \<le> length ?q"
    "fst (sink_write (w_w ?u) (bytes (Encrypt (w_c ?u) (store_at (w_buf ?u) (w_n ?u) ?q))))
       = Some ?e"
    by (simp_all add: ev)
  have offu: "w_off ?u = 8" and nu: "w_n ?u = 0"
    by (simp_all add: ev)
  have ha: "w_n ?v < Block" "Block - w_n ?v \<le> length ?s"
    "fst (sink_write (w_w ?v) (bytes (Encrypt (w_c ?v) (store_at (w_buf ?v) (w_n ?v) ?s))))
       = None"
    by (simp_all add: ev)
  have nv: "w_n ?v = 5"
    by (simp add: ev)
  have hx: "w_n ?z = 0" "wr_Write (w_w ?z) = bounded_Write 8"
    "length (wr_obj (w_w ?z)) + Block * 1 \<le> 8"
    "8 < length (wr_obj (w_w ?z)) + Block * Suc 1"
    "Block * Suc 1 \<le> length ?y"
    "w_off ?z = 0"
    by (simp_all add: fresh_Writer_def Reset_def ResetCRC_def bounded_sink_def Block_def)
  note inst = C10_failed_flush [where w = ?w and e = ?e and v = ?v and p = ?p and t = 3
      and e' = ?e and v' = "snd (Write ?v ?p)" and u = ?u and q = ?q and f = ?e
      and a = ?v and s = ?s and x = ?z and cap = 8 and j = 1 and y = ?y]
  from inst hv run have a: "w_n (snd (Write ?v ?p)) = 0"
    and b: "w_off (snd (Write ?v ?p)) = w_off ?v + of_nat 3 + of_nat Block"
    by simp_all
  have offv: "w_off ?v = 5"
    by (simp add: ev)
  from inst hw have c: "flush ?w = (Some ?e,
         ?w\<lparr>w_crc := UpdateCRC (w_crc ?w) (bytes (w_buf ?w)),
           w_w := snd (sink_write (w_w ?w) (bytes (Encrypt (w_c ?w) (w_buf ?w)))),
           w_off := w_off ?w + of_int (int Block - int (w_n ?w)),
           w_n := 0\<rparr>)"
    by blast
  from inst hu have d: "Write ?u ?q =
        ((0, Some ?e),
         ?u\<lparr>w_buf := store_at (w_buf ?u) (w_n ?u) ?q,
           w_crc := UpdateCRC (w_crc ?u) (bytes (store_at (w_buf ?u) (w_n ?u) ?q)),
           w_w := snd (sink_write (w_w ?u)
                    (bytes (Encrypt (w_c ?u) (store_at (w_buf ?u) (w_n ?u) ?q)))),
           w_off := w_off ?u + of_nat (Block - w_n ?u),
           w_n := 0\<rparr>)"
    by blast
  from inst ha have "Write ?v ?s =
        (case Write
                (?v\<lparr>w_buf := (if w_NoZero ?v
                              then store_at (store_at (w_buf ?v) (w_n ?v) ?s) 0 (bytes empty)
                              else store_at (w_buf ?v) (w_n ?v) ?s),
                   w_crc := UpdateCRC (w_crc ?v) (bytes (store_at (w_buf ?v) (w_n ?v) ?s)),
                   w_w := snd (sink_write (w_w ?v)
                            (bytes (Encrypt (w_c ?v) (store_at (w_buf ?v) (w_n ?v) ?s)))),
                   w_off := w_off ?v + of_nat (Block - w_n ?v),
                   w_n := 0\<rparr>)
                (drop (Block - w_n ?v) ?s) of
           ((m, err), a2) \<Rightarrow> ((Block - w_n ?v + m, err), a2))"
    by blast
  then have g: "fst (Write ?v ?s) = (3, None)"
    by (simp add: nv Block_def Write_Nil)
  from inst hx have h: "fst (Write ?z ?y) = (Block * 1, Some ?e)"
    and i: "w_off (snd (Write ?z ?y)) = w_off ?z + of_nat (Block * Suc 1)"
    by blast+
  from res a b offv sink c offw nw d offu nu g h i hx(6) show ?thesis
    by (simp add: Block_def)
qed

end
